theory Spec2Isabelle
  imports Main "HOL-Library.Word"
begin

unbundle bit_operations_syntax

section \<open>Shared types\<close>

text \<open>
  \<open>string16\<close> and \<open>std::string\<close> are both character sequences; a C++ \<open>int\<close> is a
  32-bit word.  A \<open>DCHECK\<close> that fails, a \<open>NOTREACHED()\<close> that is reached and
  the \<open>std::out_of_range\<close> of \<open>substr\<close> are error values.
\<close>

type_synonym string16 = string
type_synonym cint = "32 word"

datatype error = DCheckFailed | NotReached | OutOfRange

section \<open>RemoveDuplicateSuggestions\<close>

type_synonym suggestions = "string16 list \<times> string16 list \<times> string16 list \<times> cint list"

text \<open>
  The \<open>for\<close> loop of \<open>RemoveDuplicateSuggestions\<close>: \<open>i\<close> is the loop index,
  \<open>seen\<close> is \<open>seen_suggestions\<close>, and the last four arguments are the four
  \<open>_copy\<close> vectors.  \<open>seen_suggestions.insert(suggestion).second\<close> is true exactly
  when the pair was not in the set before.
\<close>

function RemoveDuplicateSuggestions_loop ::
  "string16 list \<Rightarrow> string16 list \<Rightarrow> string16 list \<Rightarrow> cint list \<Rightarrow> nat \<Rightarrow>
   (string16 \<times> string16) set \<Rightarrow>
   string16 list \<Rightarrow> string16 list \<Rightarrow> string16 list \<Rightarrow> cint list \<Rightarrow> suggestions"
where
  "RemoveDuplicateSuggestions_loop values labels icons unique_ids i seen
       values_copy labels_copy icons_copy unique_ids_copy =
     (if i < length values then
        (if (values ! i, labels ! i) \<notin> seen then
           RemoveDuplicateSuggestions_loop values labels icons unique_ids (Suc i)
             (insert (values ! i, labels ! i) seen)
             (values_copy @ [values ! i]) (labels_copy @ [labels ! i])
             (icons_copy @ [icons ! i]) (unique_ids_copy @ [unique_ids ! i])
         else
           RemoveDuplicateSuggestions_loop values labels icons unique_ids (Suc i) seen
             values_copy labels_copy icons_copy unique_ids_copy)
      else (values_copy, labels_copy, icons_copy, unique_ids_copy))"
  by pat_completeness auto
termination
  by (relation "measure (\<lambda>(values, labels, icons, unique_ids, i, rest). length values - i)")
     auto

text \<open>The three \<open>DCHECK_EQ\<close>s on the sizes come first, then the loop and the swaps.\<close>

definition RemoveDuplicateSuggestions :: "suggestions \<Rightarrow> error + suggestions" where
  "RemoveDuplicateSuggestions s =
     (case s of (values, labels, icons, unique_ids) \<Rightarrow>
        if length values \<noteq> length labels \<or> length values \<noteq> length icons
           \<or> length values \<noteq> length unique_ids
        then Inl DCheckFailed
        else Inr (RemoveDuplicateSuggestions_loop values labels icons unique_ids 0 {}
                    [] [] [] []))"

text \<open>
  The four aligned sequences read as one sequence of entries
  (value, label, icon, unique id), and back.
\<close>

type_synonym suggestion_entry = "string16 \<times> string16 \<times> string16 \<times> cint"

definition entries_of :: "suggestions \<Rightarrow> suggestion_entry list" where
  "entries_of s = (case s of (values, labels, icons, unique_ids) \<Rightarrow>
     zip values (zip labels (zip icons unique_ids)))"

definition suggestions_of :: "suggestion_entry list \<Rightarrow> suggestions" where
  "suggestions_of es =
     (map fst es, map (fst \<circ> snd) es, map (fst \<circ> snd \<circ> snd) es, map (snd \<circ> snd \<circ> snd) es)"

definition entry_key :: "suggestion_entry \<Rightarrow> string16 \<times> string16" where
  "entry_key e = (fst e, fst (snd e))"

text \<open>
  The deduplication as the specification words it: an entry stays, and every later entry
  with the same (value, label) pair goes, in first-seen order.
\<close>

fun collapse_duplicates :: "suggestion_entry list \<Rightarrow> suggestion_entry list" where
  "collapse_duplicates [] = []"
| "collapse_duplicates (e # es) =
     e # collapse_duplicates (filter (\<lambda>x. entry_key x \<noteq> entry_key e) es)"

text \<open>The loop read on entries, with the set of pairs seen so far.\<close>

fun dedup_from :: "(string16 \<times> string16) set \<Rightarrow> suggestion_entry list \<Rightarrow> suggestion_entry list" where
  "dedup_from seen [] = []"
| "dedup_from seen (e # es) =
     (if entry_key e \<in> seen then dedup_from seen es
      else e # dedup_from (insert (entry_key e) seen) es)"

section \<open>Field types\<close>

text \<open>
  \<open>AutofillFieldType\<close> is declared in \<open>field_types.h\<close>.  The enumerators that
  \<open>autofill_manager.cc\<close> names are constructors of their own; \<open>OTHER_TYPE n\<close> stands
  for each of the remaining enumerators.
\<close>

datatype AutofillFieldType =
    NO_SERVER_DATA
  | UNKNOWN_TYPE
  | EMPTY_TYPE
  | CREDIT_CARD_NUMBER
  | CREDIT_CARD_EXP_MONTH
  | CREDIT_CARD_EXP_4_DIGIT_YEAR
  | OTHER_TYPE nat

text \<open>
  \<open>AutoFillType::FieldTypeGroup\<close> and \<open>AutoFillType::FieldTypeSubGroup\<close>.  The file
  names \<open>NO_GROUP\<close>, \<open>PHONE_HOME\<close>, \<open>PHONE_FAX\<close>, \<open>CREDIT_CARD\<close> and the subgroup
  \<open>PHONE_NUMBER\<close>; the other groups are the name and address groups.
\<close>

datatype FieldTypeGroup =
    NO_GROUP
  | CONTACT_INFO
  | ADDRESS_HOME
  | ADDRESS_BILLING
  | PHONE_HOME
  | PHONE_FAX
  | CREDIT_CARD

datatype FieldTypeSubGroup =
    NO_SUBGROUP
  | PHONE_NUMBER
  | OTHER_SUBGROUP nat

section \<open>Forms, fields and stored records\<close>

text \<open>\<open>webkit_glue::FormField\<close>: the members this file reads and writes.\<close>

record FormField =
  ff_label :: string16
  ff_name :: string16
  ff_value :: string16
  form_control_type :: string16
  max_length :: int
  is_autofilled :: bool

text \<open>
  Modelled from the spec: \<open>FormField::operator==\<close> (\<open>webkit/glue/form_field.cc\<close> is not
  among the sources).  Two fields are the same field when name, label, control kind and
  maximum length agree; the current value and the autofilled flag are not compared.  An
  \<open>AutoFillField\<close> is compared with a \<open>FormField\<close> in the same way.
\<close>

definition FormField_eq :: "'a FormField_scheme \<Rightarrow> 'b FormField_scheme \<Rightarrow> bool" where
  "FormField_eq a b \<longleftrightarrow>
     ff_label a = ff_label b \<and> ff_name a = ff_name b \<and>
     form_control_type a = form_control_type b \<and> max_length a = max_length b"

text \<open>\<open>AutoFillField\<close>: a \<open>FormField\<close> with the type that \<open>type()\<close> returns.\<close>

record AutoFillField = FormField +
  af_type :: AutofillFieldType

text \<open>
  \<open>FormStructure\<close>: \<open>fs_fields\<close> are the fields \<open>field(0)\<close> ..
  \<open>field(field_count() - 1)\<close>; \<open>IsAutoFillable\<close> gives the result of the method of that
  name for each value of its argument.
\<close>

record FormStructure =
  fs_fields :: "AutoFillField list"
  source_url_scheme :: string
  autofill_count :: nat
  IsAutoFillable :: "bool \<Rightarrow> bool"
  FormSignature :: string

definition field_count :: "FormStructure \<Rightarrow> nat" where
  "field_count form = length (fs_fields form)"

text \<open>\<open>webkit_glue::FormData\<close>: the field vector.\<close>

record FormData =
  form_fields :: "FormField list"

text \<open>Stored records: what \<open>GetFieldText\<close> returns for each type, and the GUID.\<close>

record AutoFillProfile =
  AutoFillProfile_guid :: string
  AutoFillProfile_GetFieldText :: "AutofillFieldType \<Rightarrow> string16"

record CreditCard =
  CreditCard_guid :: string
  CreditCard_GetFieldText :: "AutofillFieldType \<Rightarrow> string16"
  ObfuscatedNumber :: string16
  LastFourDigits :: string16
  CreditCard_type :: string16

section \<open>Functions and constants of other files\<close>

text \<open>
  The functions and resource identifiers that \<open>autofill_manager.cc\<close> uses from files
  that are not among the sources are parameters of the model:
  \<open>AutoFillType::group\<close>, \<open>AutoFillType::subgroup\<close> and
  \<open>AutoFillType::GetEquivalentFieldType\<close>; \<open>guid::IsValidGUID\<close>;
  \<open>FormStructure::operator==(const FormData&)\<close>; the two overloads of
  \<open>autofill::FillSelectControl\<close>; \<open>l10n_util::GetStringUTF16\<close> and the two warning
  message identifiers; \<open>StartsWith\<close>; and \<open>AutoFillProfile::CreateInferredLabels\<close>.
\<close>

record externals =
  type_group :: "AutofillFieldType \<Rightarrow> FieldTypeGroup"
  type_subgroup :: "AutofillFieldType \<Rightarrow> FieldTypeSubGroup"
  GetEquivalentFieldType :: "AutofillFieldType \<Rightarrow> AutofillFieldType"
  IsValidGUID :: "string \<Rightarrow> bool"
  FormStructure_eq :: "FormStructure \<Rightarrow> FormData \<Rightarrow> bool"
  FillSelectControl_profile :: "AutoFillProfile \<Rightarrow> AutofillFieldType \<Rightarrow> FormField \<Rightarrow> FormField"
  FillSelectControl_card :: "CreditCard \<Rightarrow> AutofillFieldType \<Rightarrow> FormField \<Rightarrow> FormField"
  GetStringUTF16 :: "cint \<Rightarrow> string16"
  IDS_AUTOFILL_WARNING_FORM_DISABLED :: cint
  IDS_AUTOFILL_WARNING_INSECURE_CONNECTION :: cint
  StartsWith :: "string16 \<Rightarrow> string16 \<Rightarrow> bool \<Rightarrow> bool"
  CreateInferredLabels ::
    "AutoFillProfile list \<Rightarrow> AutofillFieldType list \<Rightarrow> AutofillFieldType \<Rightarrow> nat \<Rightarrow> string16 list"

text \<open>
  Modelled from the spec: \<open>PhoneNumber::kPrefixOffset\<close> (\<open>phone_number.h\<close> is not among
  the sources).  The prefix is the start of the number.
\<close>

definition kPrefixOffset :: nat where "kPrefixOffset = 0"

text \<open>
  Modelled from the spec: \<open>PhoneNumber::kPrefixLength\<close> (\<open>phone_number.h\<close> is not among
  the sources).  The specification gives a prefix length of 3.
\<close>

definition kPrefixLength :: nat where "kPrefixLength = 3"

text \<open>
  Modelled from the spec: \<open>PhoneNumber::kSuffixOffset\<close> (\<open>phone_number.h\<close> is not among
  the sources).  The suffix is the end of a number of prefix length plus suffix length,
  so it starts where the prefix ends.
\<close>

definition kSuffixOffset :: nat where "kSuffixOffset = 3"

text \<open>
  Modelled from the spec: \<open>PhoneNumber::kSuffixLength\<close> (\<open>phone_number.h\<close> is not among
  the sources).  The specification gives a suffix length of 7, in a number of 10 digits.
\<close>

definition kSuffixLength :: nat where "kSuffixLength = 7"

section \<open>FindSectionBounds\<close>

text \<open>
  The variables of the loop.  The initiating field is given by its index in the form:
  \<open>current_field == &field\<close> compares addresses, and the fields of a form are distinct
  objects.
\<close>

record section_bounds =
  section_start :: nat
  section_end :: nat
  seen_types :: "AutofillFieldType set"
  initiating_field_is_in_current_section :: bool

text \<open>The last two statements of the loop body.\<close>

definition include_current_field :: "AutofillFieldType \<Rightarrow> nat \<Rightarrow> nat \<Rightarrow> section_bounds \<Rightarrow> section_bounds" where
  "include_current_field current_type i field st =
     st\<lparr>seen_types := insert current_type (seen_types st),
        initiating_field_is_in_current_section :=
          (if i = field then True else initiating_field_is_in_current_section st)\<rparr>"

function FindSectionBounds_loop ::
  "externals \<Rightarrow> AutoFillField list \<Rightarrow> nat \<Rightarrow> bool \<Rightarrow> nat \<Rightarrow> section_bounds \<Rightarrow> section_bounds"
where
  "FindSectionBounds_loop ext form field is_filling_credit_card i st =
     (if i < length form then
        (let current_type = GetEquivalentFieldType ext (af_type (form ! i)) in
         if current_type = UNKNOWN_TYPE then
           FindSectionBounds_loop ext form field is_filling_credit_card (Suc i) st
         else
           (let current_type_group = type_group ext current_type;
                already_saw_current_type =
                  (if current_type_group = PHONE_HOME \<or> current_type_group = PHONE_FAX
                   then False else current_type \<in> seen_types st);
                is_credit_card_field = (current_type_group = CREDIT_CARD);
                is_appropriate_type = (is_credit_card_field = is_filling_credit_card)
            in
              if already_saw_current_type \<or> \<not> is_appropriate_type then
                (if initiating_field_is_in_current_section st then st\<lparr>section_end := i\<rparr>
                 else if is_appropriate_type then
                   FindSectionBounds_loop ext form field is_filling_credit_card (Suc i)
                     (include_current_field current_type i field
                        (st\<lparr>seen_types := {}, section_start := i\<rparr>))
                 else
                   FindSectionBounds_loop ext form field is_filling_credit_card (Suc i)
                     (st\<lparr>seen_types := {}, section_start := Suc i\<rparr>))
              else
                FindSectionBounds_loop ext form field is_filling_credit_card (Suc i)
                  (include_current_field current_type i field st)))
      else st)"
  by pat_completeness auto
termination
  by (relation "measure (\<lambda>(ext, form, field, is_filling_credit_card, i, st). length form - i)")
     auto

declare FindSectionBounds_loop.simps [simp del]

text \<open>
  The state after the loop, from the defaults: the whole form, no type seen, the
  initiating field not found yet.
\<close>

definition FindSectionBounds_run ::
  "externals \<Rightarrow> FormStructure \<Rightarrow> nat \<Rightarrow> bool \<Rightarrow> section_bounds" where
  "FindSectionBounds_run ext form field is_filling_credit_card =
     FindSectionBounds_loop ext (fs_fields form) field is_filling_credit_card 0
       \<lparr>section_start = 0, section_end = field_count form, seen_types = {},
        initiating_field_is_in_current_section = False\<rparr>"

text \<open>
  \<open>FindSectionBounds\<close> with its closing
  \<open>DCHECK(initiating_field_is_in_current_section)\<close>.
\<close>

definition FindSectionBounds ::
  "externals \<Rightarrow> FormStructure \<Rightarrow> nat \<Rightarrow> bool \<Rightarrow> error + (nat \<times> nat)" where
  "FindSectionBounds ext form field is_filling_credit_card =
     (let st = FindSectionBounds_run ext form field is_filling_credit_card in
      if initiating_field_is_in_current_section st
      then Inr (section_start st, section_end st)
      else Inl DCheckFailed)"

text \<open>
  The tests of the loop body on the field at index \<open>n\<close>: its equivalent type is not
  \<open>UNKNOWN_TYPE\<close>; it is a credit card field exactly when credit card data is filled;
  its type was seen in the current section and is not a phone or fax type.
\<close>

definition known_field :: "externals \<Rightarrow> AutoFillField list \<Rightarrow> nat \<Rightarrow> bool" where
  "known_field ext form n \<longleftrightarrow> GetEquivalentFieldType ext (af_type (form ! n)) \<noteq> UNKNOWN_TYPE"

definition appropriate_field :: "externals \<Rightarrow> AutoFillField list \<Rightarrow> bool \<Rightarrow> nat \<Rightarrow> bool" where
  "appropriate_field ext form is_filling_credit_card n \<longleftrightarrow>
     (type_group ext (GetEquivalentFieldType ext (af_type (form ! n))) = CREDIT_CARD)
       = is_filling_credit_card"

definition already_saw :: "externals \<Rightarrow> AutoFillField list \<Rightarrow> section_bounds \<Rightarrow> nat \<Rightarrow> bool" where
  "already_saw ext form st n \<longleftrightarrow>
     (let t = GetEquivalentFieldType ext (af_type (form ! n)) in
      type_group ext t \<noteq> PHONE_HOME \<and> type_group ext t \<noteq> PHONE_FAX \<and> t \<in> seen_types st)"

section \<open>SectionIsAutoFilled\<close>

text \<open>
  The inner \<open>while\<close> loop of \<open>SectionIsAutoFilled\<close> and of the fill loop: from \<open>k\<close>,
  the first index below \<open>bound\<close> whose cached field equals the live field, or \<open>bound\<close>
  (or \<open>k\<close>, when \<open>k\<close> is not below \<open>bound\<close>).
\<close>

function search_forward :: "AutoFillField list \<Rightarrow> nat \<Rightarrow> FormField \<Rightarrow> nat \<Rightarrow> nat" where
  "search_forward cached bound live_field k =
     (if k < bound \<and> \<not> FormField_eq (cached ! k) live_field
      then search_forward cached bound live_field (Suc k)
      else k)"
  by pat_completeness auto
termination
  by (relation "measure (\<lambda>(cached, bound, live_field, k). bound - k)") auto

declare search_forward.simps [simp del]

text \<open>
  The loop of \<open>SectionIsAutoFilled\<close>.  \<open>trace\<close> is not a variable of the C++ loop: it
  records, for each live field that the loop processes, in order, the cursor \<open>i\<close> at
  which the search for it started and the cached index \<open>k\<close> at which it was matched,
  if it was.
\<close>

type_synonym search_trace = "(nat \<times> nat option) list"

function SectionIsAutoFilled_loop ::
  "FormStructure \<Rightarrow> FormData \<Rightarrow> nat \<Rightarrow> nat \<Rightarrow> nat \<Rightarrow> search_trace \<Rightarrow> bool \<times> search_trace" where
  "SectionIsAutoFilled_loop form_structure form sec_end i j trace =
     (if i < sec_end \<and> j < length (form_fields form) then
        (let k = search_forward (fs_fields form_structure) (field_count form_structure)
                   (form_fields form ! j) i
         in if k \<ge> field_count form_structure then
              SectionIsAutoFilled_loop form_structure form sec_end i (Suc j)
                (trace @ [(i, None)])
            else if is_autofilled (form_fields form ! j) then (True, trace @ [(i, Some k)])
            else SectionIsAutoFilled_loop form_structure form sec_end (Suc i) (Suc j)
                   (trace @ [(i, Some k)]))
      else (False, trace))"
  by pat_completeness auto
termination
  by (relation "measure (\<lambda>(form_structure, form, sec_end, i, j, trace).
        length (form_fields form) - j)")
     auto

declare SectionIsAutoFilled_loop.simps [simp del]

definition SectionIsAutoFilled :: "FormStructure \<Rightarrow> FormData \<Rightarrow> nat \<Rightarrow> nat \<Rightarrow> bool" where
  "SectionIsAutoFilled form_structure form sec_start sec_end =
     fst (SectionIsAutoFilled_loop form_structure form sec_end sec_start 0 [])"

text \<open>
  What a trace of either loop has to look like when a match moves the cursor on by one:
  the number of matches among the first \<open>j\<close> entries, and the statement that every
  entry \<open>j\<close> has the cursor \<open>section_start\<close> plus the number of matches before it, below
  \<open>section_end\<close>, and the outcome of the forward search for live field \<open>j\<close> from that
  cursor up to \<open>bound\<close>.
\<close>

definition matches_before :: "search_trace \<Rightarrow> nat \<Rightarrow> nat" where
  "matches_before trace j = length (filter (\<lambda>e. snd e \<noteq> None) (take j trace))"

definition search_outcome :: "AutoFillField list \<Rightarrow> nat \<Rightarrow> FormField \<Rightarrow> nat \<Rightarrow> nat option" where
  "search_outcome cached bound live_field i =
     (let k = search_forward cached bound live_field i in if k < bound then Some k else None)"

definition greedy_trace ::
  "AutoFillField list \<Rightarrow> nat \<Rightarrow> nat \<Rightarrow> nat \<Rightarrow> FormField list \<Rightarrow> search_trace \<Rightarrow> bool" where
  "greedy_trace cached bound sec_start sec_end live trace \<longleftrightarrow>
     length trace \<le> length live \<and>
     (\<forall>j < length trace.
        fst (trace ! j) = sec_start + matches_before trace j \<and>
        fst (trace ! j) < sec_end \<and>
        snd (trace ! j) = search_outcome cached bound (live ! j) (fst (trace ! j)))"

text \<open>
  The same statement for a loop that is at live field \<open>j\<close> with cursor \<open>i\<close>, about the
  entries \<open>added\<close> that it is still to add; and the live fields that equal some cached
  field of the form.
\<close>

definition trace_from ::
  "AutoFillField list \<Rightarrow> nat \<Rightarrow> nat \<Rightarrow> FormField list \<Rightarrow> nat \<Rightarrow> nat \<Rightarrow> search_trace \<Rightarrow> bool" where
  "trace_from cached bound sec_end live i j added \<longleftrightarrow>
     length added \<le> length live - j \<and>
     (\<forall>n < length added.
        fst (added ! n) = i + matches_before added n \<and>
        fst (added ! n) < sec_end \<and>
        snd (added ! n) = search_outcome cached bound (live ! (j + n)) (fst (added ! n)))"

definition has_equal_cached :: "FormStructure \<Rightarrow> FormField \<Rightarrow> bool" where
  "has_equal_cached form_structure live_field \<longleftrightarrow>
     (\<exists>n < field_count form_structure. FormField_eq (fs_fields form_structure ! n) live_field)"

definition FormIsHTTPS :: "FormStructure \<Rightarrow> bool" where
  "FormIsHTTPS form \<longleftrightarrow> source_url_scheme form = ''https''"

section \<open>The manager and its GUID maps\<close>

text \<open>
  The members of \<open>AutoFillManager\<close> that the modelled functions use.  \<open>profiles\<close> and
  \<open>credit_cards\<close> are the vectors of \<open>personal_data_\<close>; \<open>IsAutoFillEnabled\<close> is the
  preference; \<open>has_render_view_host\<close> says that the tab has a host.
\<close>

record AutoFillManager =
  form_structures :: "FormStructure list"
  profiles :: "AutoFillProfile list"
  credit_cards :: "CreditCard list"
  IsAutoFillEnabled :: bool
  has_render_view_host :: bool
  guid_id_map :: "string \<rightharpoonup> cint"
  id_guid_map :: "cint \<rightharpoonup> string"
  autofilled_forms_signatures :: "string list"

text \<open>
  \<open>last_id\<close> is a \<open>static\<close> local of \<open>GUIDToID\<close>: one counter for all the managers
  of the process, while the two maps are members of each manager.  So \<open>GUIDToID\<close>, and
  every function that calls it, takes the counter beside the manager and returns both.
\<close>

definition GUIDToID ::
  "externals \<Rightarrow> cint \<Rightarrow> AutoFillManager \<Rightarrow> string \<Rightarrow> cint \<times> cint \<times> AutoFillManager" where
  "GUIDToID ext last_id m guid =
     (if \<not> IsValidGUID ext guid then (0, last_id, m)
      else (case guid_id_map m guid of
              None \<Rightarrow>
                (last_id, last_id + 1,
                 m\<lparr>guid_id_map := (guid_id_map m)(guid \<mapsto> last_id),
                   id_guid_map := (id_guid_map m)(last_id \<mapsto> guid)\<rparr>)
            | Some n \<Rightarrow> (n, last_id, m)))"

definition IDToGUID :: "AutoFillManager \<Rightarrow> cint \<Rightarrow> error + string" where
  "IDToGUID m n =
     (if n = 0 then Inr ''''
      else (case id_guid_map m n of None \<Rightarrow> Inl NotReached | Some guid \<Rightarrow> Inr guid))"

text \<open>
  \<open>std::numeric_limits<unsigned short>::max()\<close> is 65535 and \<open>digits\<close> is 16.  The
  comparisons are between \<open>int\<close>s, so signed; \<open><<\<close> binds tighter than \<open>|\<close>, and
  \<open>>>\<close> tighter than \<open>&\<close>; \<open>>>\<close> on an \<open>int\<close> keeps the sign.
\<close>

definition PackGUIDs ::
  "externals \<Rightarrow> cint \<Rightarrow> AutoFillManager \<Rightarrow> string \<Rightarrow> string \<Rightarrow>
   error + (cint \<times> cint \<times> AutoFillManager)" where
  "PackGUIDs ext last_id m cc_guid profile_guid =
     (case GUIDToID ext last_id m cc_guid of (cc_id, last_id1, m1) \<Rightarrow>
      case GUIDToID ext last_id1 m1 profile_guid of (profile_id, last_id2, m2) \<Rightarrow>
        if \<not> word_sle cc_id 65535 then Inl DCheckFailed
        else if \<not> word_sle profile_id 65535 then Inl DCheckFailed
        else Inr (push_bit 16 cc_id OR profile_id, last_id2, m2))"

definition UnpackGUIDs :: "AutoFillManager \<Rightarrow> cint \<Rightarrow> error + (string \<times> string)" where
  "UnpackGUIDs m packed =
     (let cc_id = signed_drop_bit 16 packed AND 65535;
          profile_id = packed AND 65535
      in case IDToGUID m cc_id of
           Inl e \<Rightarrow> Inl e
         | Inr cc_guid \<Rightarrow>
             (case IDToGUID m profile_id of
                Inl e \<Rightarrow> Inl e
              | Inr profile_guid \<Rightarrow> Inr (cc_guid, profile_guid)))"








section \<open>Filling one field\<close>

text \<open>
  \<open>string16::substr(pos, n)\<close>: at most \<open>n\<close> characters from position \<open>pos\<close>; a
  position beyond the end throws.
\<close>

definition substr :: "string16 \<Rightarrow> nat \<Rightarrow> nat \<Rightarrow> error + string16" where
  "substr s pos n = (if pos > length s then Inl OutOfRange else Inr (take n (drop pos s)))"

definition FillPhoneNumberField ::
  "AutoFillProfile \<Rightarrow> AutofillFieldType \<Rightarrow> FormField \<Rightarrow> error + FormField" where
  "FillPhoneNumberField profile type field =
     (let number = AutoFillProfile_GetFieldText profile type;
          has_valid_suffix_and_prefix = (length number = kPrefixLength + kSuffixLength)
      in if has_valid_suffix_and_prefix \<and> max_length field = int kPrefixLength then
           (case substr number kPrefixOffset kPrefixLength of
              Inl e \<Rightarrow> Inl e
            | Inr part \<Rightarrow> Inr (field\<lparr>ff_value := part\<rparr>))
         else if has_valid_suffix_and_prefix \<and> max_length field = int kSuffixLength then
           (case substr number kSuffixOffset kSuffixLength of
              Inl e \<Rightarrow> Inl e
            | Inr part \<Rightarrow> Inr (field\<lparr>ff_value := part\<rparr>))
         else Inr (field\<lparr>ff_value := number\<rparr>))"

text \<open>\<open>DCHECK_NE(AutoFillType::CREDIT_CARD, type.group())\<close> comes first.\<close>

definition FillFormField ::
  "externals \<Rightarrow> AutoFillProfile \<Rightarrow> AutofillFieldType \<Rightarrow> FormField \<Rightarrow> error + FormField" where
  "FillFormField ext profile type field =
     (if type_group ext type = CREDIT_CARD then Inl DCheckFailed
      else if type_subgroup ext type = PHONE_NUMBER then FillPhoneNumberField profile type field
      else if form_control_type field = ''select-one''
        then Inr (FillSelectControl_profile ext profile type field)
      else Inr (field\<lparr>ff_value := AutoFillProfile_GetFieldText profile type\<rparr>))"

text \<open>\<open>DCHECK_EQ(AutoFillType::CREDIT_CARD, type.group())\<close> comes first.\<close>

definition FillCreditCardFormField ::
  "externals \<Rightarrow> CreditCard \<Rightarrow> AutofillFieldType \<Rightarrow> FormField \<Rightarrow> error + FormField" where
  "FillCreditCardFormField ext credit_card type field =
     (if type_group ext type \<noteq> CREDIT_CARD then Inl DCheckFailed
      else if form_control_type field = ''select-one''
        then Inr (FillSelectControl_card ext credit_card type field)
      else if form_control_type field = ''month'' then
        (let year = CreditCard_GetFieldText credit_card CREDIT_CARD_EXP_4_DIGIT_YEAR;
             month = CreditCard_GetFieldText credit_card CREDIT_CARD_EXP_MONTH
         in if year \<noteq> [] \<and> month \<noteq> []
            then Inr (field\<lparr>ff_value := year @ ''-'' @ month\<rparr>)
            else Inr field)
      else Inr (field\<lparr>ff_value := CreditCard_GetFieldText credit_card type\<rparr>))"

text \<open>
  The choice that \<open>OnFillAutoFillFormData\<close> makes at both of its fill sites:
  \<open>if (profile)\<close> with its \<open>DCHECK_NE\<close>, \<open>else\<close> with its \<open>DCHECK_EQ\<close>; a null
  \<open>credit_card\<close> fails the \<open>DCHECK(credit_card)\<close> of \<open>FillCreditCardFormField\<close>.
\<close>

definition FillWithRecord ::
  "externals \<Rightarrow> AutoFillProfile option \<Rightarrow> CreditCard option \<Rightarrow> AutofillFieldType \<Rightarrow>
   FormField \<Rightarrow> error + FormField" where
  "FillWithRecord ext profile credit_card type field =
     (case profile of
        Some p \<Rightarrow>
          if type_group ext type = CREDIT_CARD then Inl DCheckFailed
          else FillFormField ext p type field
      | None \<Rightarrow>
          if type_group ext type \<noteq> CREDIT_CARD then Inl DCheckFailed
          else (case credit_card of
                  None \<Rightarrow> Inl DCheckFailed
                | Some c \<Rightarrow> FillCreditCardFormField ext c type field))"

section \<open>Finding the cached form, the field and the records\<close>

definition GetHost :: "AutoFillManager \<Rightarrow> bool" where
  "GetHost m \<longleftrightarrow>
     IsAutoFillEnabled m \<and> \<not> (profiles m = [] \<and> credit_cards m = []) \<and> has_render_view_host m"

definition FindCachedForm :: "externals \<Rightarrow> AutoFillManager \<Rightarrow> FormData \<Rightarrow> FormStructure option" where
  "FindCachedForm ext m form = find (\<lambda>s. FormStructure_eq ext s form) (form_structures m)"

text \<open>The index of the first cached field that equals the live field.\<close>

fun find_field :: "AutoFillField list \<Rightarrow> FormField \<Rightarrow> nat option" where
  "find_field [] field = None"
| "find_field (f # fs) field =
     (if FormField_eq f field then Some 0 else map_option Suc (find_field fs field))"

definition FindCachedFormAndField ::
  "externals \<Rightarrow> AutoFillManager \<Rightarrow> FormData \<Rightarrow> FormField \<Rightarrow> (FormStructure \<times> nat) option" where
  "FindCachedFormAndField ext m form field =
     (case FindCachedForm ext m form of
        None \<Rightarrow> None
      | Some form_structure \<Rightarrow>
          if autofill_count form_structure = 0 then None
          else (case find_field (fs_fields form_structure) field of
                  None \<Rightarrow> None
                | Some autofill_field \<Rightarrow> Some (form_structure, autofill_field)))"

text \<open>
  The part of \<open>OnFillAutoFillFormData\<close> that unpacks \<open>unique_id\<close> and looks the profile
  and the credit card up, with its three \<open>DCHECK\<close>s.
\<close>

definition FindRecords ::
  "externals \<Rightarrow> AutoFillManager \<Rightarrow> cint \<Rightarrow> error + (AutoFillProfile option \<times> CreditCard option)" where
  "FindRecords ext m unique_id =
     (case UnpackGUIDs m unique_id of
        Inl e \<Rightarrow> Inl e
      | Inr (cc_guid, profile_guid) \<Rightarrow>
          if IsValidGUID ext cc_guid \<and> IsValidGUID ext profile_guid then Inl DCheckFailed
          else
            (let profile =
                   (if IsValidGUID ext profile_guid
                    then find (\<lambda>p. AutoFillProfile_guid p = profile_guid) (profiles m)
                    else None);
                 credit_card =
                   (if IsValidGUID ext cc_guid
                    then find (\<lambda>c. CreditCard_guid c = cc_guid) (credit_cards m)
                    else None)
             in if IsValidGUID ext profile_guid \<and> profile = None then Inl DCheckFailed
                else if IsValidGUID ext cc_guid \<and> credit_card = None then Inl DCheckFailed
                else Inr (profile, credit_card)))"

section \<open>OnFillAutoFillFormData\<close>

text \<open>
  The loop of the branch for a section that is already filled: the first field of
  \<open>result.fields\<close> that equals \<open>field\<close> is filled, then the loop breaks.
\<close>

fun FillInitiatingField ::
  "externals \<Rightarrow> AutoFillProfile option \<Rightarrow> CreditCard option \<Rightarrow> AutofillFieldType \<Rightarrow>
   FormField \<Rightarrow> FormField list \<Rightarrow> error + FormField list" where
  "FillInitiatingField ext profile credit_card type field [] = Inr []"
| "FillInitiatingField ext profile credit_card type field (f # rest) =
     (if FormField_eq f field then
        (case FillWithRecord ext profile credit_card type f of
           Inl e \<Rightarrow> Inl e
         | Inr f' \<Rightarrow> Inr (f' # rest))
      else
        (case FillInitiatingField ext profile credit_card type field rest of
           Inl e \<Rightarrow> Inl e
         | Inr rest' \<Rightarrow> Inr (f # rest')))"

text \<open>
  The fill loop.  \<open>result\<close> is \<open>result.fields\<close>.  \<open>trace\<close> is not a variable of the
  C++ loop: as in \<open>SectionIsAutoFilled_loop\<close>, it records for each live field
  processed the cursor \<open>i\<close> and the cached index \<open>k\<close> of the match, if any.
\<close>

function FillSection_loop ::
  "externals \<Rightarrow> FormStructure \<Rightarrow> AutoFillProfile option \<Rightarrow> CreditCard option \<Rightarrow> nat \<Rightarrow>
   nat \<Rightarrow> nat \<Rightarrow> FormField list \<Rightarrow> search_trace \<Rightarrow> error + (FormField list \<times> search_trace)" where
  "FillSection_loop ext form_structure profile credit_card sec_end i j result trace =
     (if i < sec_end \<and> j < length result then
        (let k = search_forward (fs_fields form_structure) sec_end (result ! j) i
         in if k \<ge> sec_end then
              FillSection_loop ext form_structure profile credit_card sec_end i (Suc j)
                result (trace @ [(i, None)])
            else
              (case (if type_group ext (af_type (fs_fields form_structure ! k)) \<noteq> NO_GROUP
                     then FillWithRecord ext profile credit_card
                            (af_type (fs_fields form_structure ! k)) (result ! j)
                     else Inr (result ! j)) of
                 Inl e \<Rightarrow> Inl e
               | Inr filled \<Rightarrow>
                   FillSection_loop ext form_structure profile credit_card sec_end
                     (Suc i) (Suc j) (result[j := filled]) (trace @ [(i, Some k)])))
      else Inr (result, trace))"
  by pat_completeness auto
termination
  by (relation "measure (\<lambda>(ext, form_structure, profile, credit_card, sec_end, i, j, result,
        trace). length result - j)")
     auto

declare FillSection_loop.simps [simp del]

definition OnFillAutoFillFormData ::
  "externals \<Rightarrow> AutoFillManager \<Rightarrow> FormData \<Rightarrow> FormField \<Rightarrow> cint \<Rightarrow>
   error + (FormData option \<times> AutoFillManager)" where
  "OnFillAutoFillFormData ext m form field unique_id =
     (if \<not> GetHost m then Inr (None, m)
      else case FindCachedFormAndField ext m form field of
        None \<Rightarrow> Inr (None, m)
      | Some (form_structure, autofill_field) \<Rightarrow>
          (case FindRecords ext m unique_id of
             Inl e \<Rightarrow> Inl e
           | Inr (profile, credit_card) \<Rightarrow>
               if profile = None \<and> credit_card = None then Inr (None, m)
               else
                 (case FindSectionBounds ext form_structure autofill_field (credit_card \<noteq> None) of
                    Inl e \<Rightarrow> Inl e
                  | Inr (sec_start, sec_end) \<Rightarrow>
                      if SectionIsAutoFilled form_structure form sec_start sec_end then
                        (case FillInitiatingField ext profile credit_card
                                (af_type (fs_fields form_structure ! autofill_field)) field
                                (form_fields form) of
                           Inl e \<Rightarrow> Inl e
                         | Inr result \<Rightarrow> Inr (Some (form\<lparr>form_fields := result\<rparr>), m))
                      else
                        (case FillSection_loop ext form_structure profile credit_card sec_end
                                sec_start 0 (form_fields form) [] of
                           Inl e \<Rightarrow> Inl e
                         | Inr (result, trace) \<Rightarrow>
                             Inr (Some (form\<lparr>form_fields := result\<rparr>),
                                  m\<lparr>autofilled_forms_signatures :=
                                      FormSignature form_structure
                                        # autofilled_forms_signatures m\<rparr>)))))"

section \<open>OnQueryFormFieldAutoFill\<close>

text \<open>\<open>kCreditCardPrefix\<close>, and \<open>std::vector::resize\<close> on a vector of strings.\<close>

definition kCreditCardPrefix :: string16 where
  "kCreditCardPrefix = ''*''"

definition resize :: "string16 list \<Rightarrow> nat \<Rightarrow> string16 list" where
  "resize xs n = take n xs @ replicate (n - length xs) []"

text \<open>
  The loop of \<open>GetProfileSuggestions\<close> over the stored profiles; \<open>values\<close> and
  \<open>unique_ids\<close> are the vectors of the caller, and every \<open>PackGUIDs\<close> works on the
  counter and the maps that the one before left.
\<close>

fun GetProfileSuggestions_loop ::
  "externals \<Rightarrow> FormField \<Rightarrow> AutofillFieldType \<Rightarrow> AutoFillProfile list \<Rightarrow> cint \<Rightarrow>
   AutoFillManager \<Rightarrow> AutoFillProfile list \<Rightarrow> string16 list \<Rightarrow> cint list \<Rightarrow>
   error + (AutoFillProfile list \<times> string16 list \<times> cint list \<times> cint \<times> AutoFillManager)" where
  "GetProfileSuggestions_loop ext field type [] last_id m matched_profiles values unique_ids =
     Inr (matched_profiles, values, unique_ids, last_id, m)"
| "GetProfileSuggestions_loop ext field type (profile # rest) last_id m matched_profiles values
       unique_ids =
     (let profile_field_value = AutoFillProfile_GetFieldText profile type in
      if profile_field_value \<noteq> [] \<and> StartsWith ext profile_field_value (ff_value field) False
      then
        (case PackGUIDs ext last_id m [] (AutoFillProfile_guid profile) of
           Inl e \<Rightarrow> Inl e
         | Inr (packed, last_id', m') \<Rightarrow>
             GetProfileSuggestions_loop ext field type rest last_id' m'
               (matched_profiles @ [profile]) (values @ [profile_field_value])
               (unique_ids @ [packed]))
      else GetProfileSuggestions_loop ext field type rest last_id m matched_profiles values
             unique_ids)"

text \<open>
  \<open>CreateInferredLabels\<close> writes the labels of the matched profiles into \<open>labels\<close>;
  \<open>icons\<close> is resized to the number of values.
\<close>

definition GetProfileSuggestions ::
  "externals \<Rightarrow> cint \<Rightarrow> AutoFillManager \<Rightarrow> FormStructure \<Rightarrow> FormField \<Rightarrow> AutofillFieldType \<Rightarrow>
   suggestions \<Rightarrow> error + (suggestions \<times> cint \<times> AutoFillManager)" where
  "GetProfileSuggestions ext last_id m form field type s =
     (case s of (values, labels, icons, unique_ids) \<Rightarrow>
      case GetProfileSuggestions_loop ext field type (profiles m) last_id m [] values unique_ids of
        Inl e \<Rightarrow> Inl e
      | Inr (matched_profiles, values', unique_ids', last_id', m') \<Rightarrow>
          Inr ((values',
                CreateInferredLabels ext matched_profiles (map af_type (fs_fields form)) type 1,
                resize icons (length values'),
                unique_ids'),
               last_id', m'))"

fun GetCreditCardSuggestions_loop ::
  "externals \<Rightarrow> FormField \<Rightarrow> AutofillFieldType \<Rightarrow> CreditCard list \<Rightarrow> cint \<Rightarrow> AutoFillManager \<Rightarrow>
   suggestions \<Rightarrow> error + (suggestions \<times> cint \<times> AutoFillManager)" where
  "GetCreditCardSuggestions_loop ext field type [] last_id m s = Inr (s, last_id, m)"
| "GetCreditCardSuggestions_loop ext field type (credit_card # rest) last_id m s =
     (case s of (values, labels, icons, unique_ids) \<Rightarrow>
      let creditcard_field_value = CreditCard_GetFieldText credit_card type in
      if creditcard_field_value \<noteq> []
         \<and> StartsWith ext creditcard_field_value (ff_value field) False
      then
        (case PackGUIDs ext last_id m (CreditCard_guid credit_card) [] of
           Inl e \<Rightarrow> Inl e
         | Inr (packed, last_id', m') \<Rightarrow>
             GetCreditCardSuggestions_loop ext field type rest last_id' m'
               (values @ [if type = CREDIT_CARD_NUMBER then ObfuscatedNumber credit_card
                          else creditcard_field_value],
                labels @ [kCreditCardPrefix @ LastFourDigits credit_card],
                icons @ [CreditCard_type credit_card],
                unique_ids @ [packed]))
      else GetCreditCardSuggestions_loop ext field type rest last_id m s)"

definition GetCreditCardSuggestions ::
  "externals \<Rightarrow> cint \<Rightarrow> AutoFillManager \<Rightarrow> FormStructure \<Rightarrow> FormField \<Rightarrow> AutofillFieldType \<Rightarrow>
   suggestions \<Rightarrow> error + (suggestions \<times> cint \<times> AutoFillManager)" where
  "GetCreditCardSuggestions ext last_id m form field type s =
     GetCreditCardSuggestions_loop ext field type (credit_cards m) last_id m s"

text \<open>
  The choice between the two in \<open>OnQueryFormFieldAutoFill\<close>, on the four empty
  vectors.
\<close>

definition GetSuggestions ::
  "externals \<Rightarrow> cint \<Rightarrow> AutoFillManager \<Rightarrow> FormStructure \<Rightarrow> FormField \<Rightarrow> AutofillFieldType \<Rightarrow>
   error + (suggestions \<times> cint \<times> AutoFillManager)" where
  "GetSuggestions ext last_id m form_structure field type =
     (if type_group ext type = CREDIT_CARD
      then GetCreditCardSuggestions ext last_id m form_structure field type ([], [], [], [])
      else GetProfileSuggestions ext last_id m form_structure field type ([], [], [], []))"

text \<open>
  The rest of the body, from the three \<open>DCHECK_EQ\<close>s on: the warning, or the labels and
  icons cleared for a filled section and the duplicates removed.
\<close>

definition ReviewSuggestions ::
  "externals \<Rightarrow> FormStructure \<Rightarrow> nat \<Rightarrow> FormData \<Rightarrow> bool \<Rightarrow> suggestions \<Rightarrow> error + suggestions" where
  "ReviewSuggestions ext form_structure autofill_field form is_filling_credit_card s =
     (case s of (values, labels, icons, unique_ids) \<Rightarrow>
      if length values \<noteq> length labels \<or> length values \<noteq> length icons
         \<or> length values \<noteq> length unique_ids
      then Inl DCheckFailed
      else if values = [] then Inr s
      else
        (let warning =
               (if \<not> IsAutoFillable form_structure True
                then IDS_AUTOFILL_WARNING_FORM_DISABLED ext
                else if is_filling_credit_card \<and> \<not> FormIsHTTPS form_structure
                then IDS_AUTOFILL_WARNING_INSECURE_CONNECTION ext
                else 0)
         in if warning \<noteq> 0
            then Inr ([GetStringUTF16 ext warning], [[]], [[]], [- 1])
            else
              (case FindSectionBounds ext form_structure autofill_field is_filling_credit_card of
                 Inl e \<Rightarrow> Inl e
               | Inr (sec_start, sec_end) \<Rightarrow>
                   if SectionIsAutoFilled form_structure form sec_start sec_end
                   then RemoveDuplicateSuggestions
                          (values, replicate (length labels) [], replicate (length icons) [],
                           unique_ids)
                   else RemoveDuplicateSuggestions (values, labels, icons, unique_ids))))"

text \<open>
  \<open>OnQueryFormFieldAutoFill\<close>: the result is the four vectors that are handed to the
  autocomplete history manager, and the counter and the manager as \<open>PackGUIDs\<close> left
  them.
\<close>

definition OnQueryFormFieldAutoFill ::
  "externals \<Rightarrow> cint \<Rightarrow> AutoFillManager \<Rightarrow> FormData \<Rightarrow> FormField \<Rightarrow>
   error + (suggestions \<times> cint \<times> AutoFillManager)" where
  "OnQueryFormFieldAutoFill ext last_id m form field =
     (if \<not> GetHost m then Inr (([], [], [], []), last_id, m)
      else case FindCachedFormAndField ext m form field of
        None \<Rightarrow> Inr (([], [], [], []), last_id, m)
      | Some (form_structure, autofill_field) \<Rightarrow>
          if \<not> IsAutoFillable form_structure False then Inr (([], [], [], []), last_id, m)
          else
            (let type = af_type (fs_fields form_structure ! autofill_field);
                 is_filling_credit_card = (type_group ext type = CREDIT_CARD)
             in case GetSuggestions ext last_id m form_structure field type of
                  Inl e \<Rightarrow> Inl e
                | Inr (s, last_id', m') \<Rightarrow>
                    (case ReviewSuggestions ext form_structure autofill_field form
                            is_filling_credit_card s of
                       Inl e \<Rightarrow> Inl e
                     | Inr s' \<Rightarrow> Inr (s', last_id', m'))))"

section \<open>Sample data for the worked instances\<close>

text \<open>
  A small instance of the external tables: \<open>OTHER_TYPE 0\<close> is a name type,
  \<open>OTHER_TYPE 1\<close> a home address type, \<open>OTHER_TYPE 2\<close> a home phone number, and
  \<open>OTHER_TYPE 3\<close> a billing address type whose equivalent is \<open>OTHER_TYPE 1\<close>; the three
  credit card types are in the credit card group.  A GUID is valid when it has 36
  characters; a string starts with another when that is a prefix of it.
\<close>

definition sample_group :: "AutofillFieldType \<Rightarrow> FieldTypeGroup" where
  "sample_group t =
     (if t = CREDIT_CARD_NUMBER \<or> t = CREDIT_CARD_EXP_MONTH \<or> t = CREDIT_CARD_EXP_4_DIGIT_YEAR
      then CREDIT_CARD
      else if t = OTHER_TYPE 0 then CONTACT_INFO
      else if t = OTHER_TYPE 1 then ADDRESS_HOME
      else if t = OTHER_TYPE 2 then PHONE_HOME
      else if t = OTHER_TYPE 3 then ADDRESS_BILLING
      else NO_GROUP)"

definition sample_externals :: externals where
  "sample_externals =
     \<lparr>type_group = sample_group,
      type_subgroup = (\<lambda>t. if t = OTHER_TYPE 2 then PHONE_NUMBER else NO_SUBGROUP),
      GetEquivalentFieldType = (\<lambda>t. if t = OTHER_TYPE 3 then OTHER_TYPE 1 else t),
      IsValidGUID = (\<lambda>g. length g = 36),
      FormStructure_eq = (\<lambda>s f. map ff_name (fs_fields s) = map ff_name (form_fields f)),
      FillSelectControl_profile = (\<lambda>p t f. f),
      FillSelectControl_card = (\<lambda>c t f. f),
      GetStringUTF16 = (\<lambda>n. if n = 1 then ''disabled'' else ''insecure''),
      IDS_AUTOFILL_WARNING_FORM_DISABLED = 1,
      IDS_AUTOFILL_WARNING_INSECURE_CONNECTION = 2,
      StartsWith = (\<lambda>s t c. take (length t) s = t),
      CreateInferredLabels = (\<lambda>ps ts t n. map (\<lambda>p. AutoFillProfile_GetFieldText p (OTHER_TYPE 1)) ps)\<rparr>"

definition text_field :: "string16 \<Rightarrow> string16 \<Rightarrow> FormField" where
  "text_field n v =
     \<lparr>ff_label = n, ff_name = n, ff_value = v, form_control_type = ''text'',
      max_length = 0, is_autofilled = False\<rparr>"

definition cached_field :: "string16 \<Rightarrow> AutofillFieldType \<Rightarrow> AutoFillField" where
  "cached_field n t = FormField.extend (text_field n '''') (AutoFillField.fields t)"

definition cached_form :: "AutoFillField list \<Rightarrow> FormStructure" where
  "cached_form fs =
     \<lparr>fs_fields = fs, source_url_scheme = ''https'', autofill_count = length fs,
      IsAutoFillable = (\<lambda>b. True), FormSignature = ''sig''\<rparr>"

text \<open>The form of scenario A: name, city, card number, expiration month and year.\<close>

definition checkout_form :: FormStructure where
  "checkout_form = cached_form
     [cached_field ''name'' (OTHER_TYPE 0), cached_field ''city'' (OTHER_TYPE 1),
      cached_field ''card'' CREDIT_CARD_NUMBER, cached_field ''month'' CREDIT_CARD_EXP_MONTH,
      cached_field ''year'' CREDIT_CARD_EXP_4_DIGIT_YEAR]"


definition guid_A :: string where
  "guid_A = ''00000000-0000-0000-0000-00000000000A''"

definition guid_B :: string where
  "guid_B = ''00000000-0000-0000-0000-00000000000B''"

text \<open>The profile of scenario C and a credit card.\<close>

definition phone_profile :: AutoFillProfile where
  "phone_profile =
     \<lparr>AutoFillProfile_guid = guid_A,
      AutoFillProfile_GetFieldText =
        (\<lambda>t. if t = OTHER_TYPE 2 then ''5551234567''
             else if t = OTHER_TYPE 0 then ''Ann''
             else if t = OTHER_TYPE 1 then ''Oslo''
             else '''')\<rparr>"

definition sample_card :: CreditCard where
  "sample_card =
     \<lparr>CreditCard_guid = guid_B,
      CreditCard_GetFieldText =
        (\<lambda>t. if t = CREDIT_CARD_EXP_4_DIGIT_YEAR then ''2012''
             else if t = CREDIT_CARD_EXP_MONTH then ''04''
             else if t = CREDIT_CARD_NUMBER then ''4111111111111111''
             else ''''),
      ObfuscatedNumber = ''************1111'', LastFourDigits = ''1111'',
      CreditCard_type = ''visaCC''\<rparr>"

text \<open>
  A manager that has cached the form of scenario A, stores the profile and the card, and
  has given the identifier 1 to the profile's GUID and 2 to the card's.
\<close>

definition sample_manager :: AutoFillManager where
  "sample_manager =
     \<lparr>form_structures = [checkout_form], profiles = [phone_profile],
      credit_cards = [sample_card], IsAutoFillEnabled = True, has_render_view_host = True,
      guid_id_map = [guid_A \<mapsto> 1, guid_B \<mapsto> 2],
      id_guid_map = [1 \<mapsto> guid_A, 2 \<mapsto> guid_B],
      autofilled_forms_signatures = []\<rparr>"

text \<open>The live form of scenario E: the name and the city are filled already.\<close>

definition filled_form :: FormData where
  "filled_form =
     \<lparr>form_fields =
        [(text_field ''name'' ''Bob'')\<lparr>is_autofilled := True\<rparr>,
         (text_field ''city'' ''Ber'')\<lparr>is_autofilled := True\<rparr>,
         text_field ''card'' '''', text_field ''month'' '''', text_field ''year'' '''']\<rparr>"

text \<open>The same manager when the page of the cached form was not loaded over HTTPS.\<close>

definition insecure_form :: FormStructure where
  "insecure_form = checkout_form\<lparr>source_url_scheme := ''http''\<rparr>"

definition insecure_manager :: AutoFillManager where
  "insecure_manager = sample_manager\<lparr>form_structures := [insecure_form]\<rparr>"


section \<open>Properties of RemoveDuplicateSuggestions\<close>

lemma dedup_from_collapse:
  "dedup_from seen es = collapse_duplicates (filter (\<lambda>x. entry_key x \<notin> seen) es)"
proof (induction es arbitrary: seen)
  case Nil
  show ?case by simp
next
  case (Cons e es)
  have "filter (\<lambda>x. entry_key x \<noteq> entry_key e) (filter (\<lambda>x. entry_key x \<notin> seen) es)
        = filter (\<lambda>x. entry_key x \<notin> insert (entry_key e) seen) es"
    by (simp add: conj_commute)
  with Cons show ?case by simp
qed

lemma dedup_from_keys:
  "distinct (map entry_key (dedup_from seen es)) \<and>
   entry_key ` set (dedup_from seen es) \<inter> seen = {}"
proof (induction es arbitrary: seen)
  case Nil
  show ?case by simp
next
  case (Cons e es)
  from Cons [of seen] Cons [of "insert (entry_key e) seen"] show ?case by auto
qed

lemma dedup_from_fixed:
  "distinct (map entry_key es) \<Longrightarrow> entry_key ` set es \<inter> seen = {} \<Longrightarrow> dedup_from seen es = es"
proof (induction es arbitrary: seen)
  case Nil
  show ?case by simp
next
  case (Cons e es)
  then show ?case by auto
qed

lemma entries_of_drop:
  assumes "length labels = length values" "length icons = length values"
    "length unique_ids = length values" "i < length values"
  shows "drop i (entries_of (values, labels, icons, unique_ids)) =
     (values ! i, labels ! i, icons ! i, unique_ids ! i)
       # drop (Suc i) (entries_of (values, labels, icons, unique_ids))"
proof -
  let ?es = "entries_of (values, labels, icons, unique_ids)"
  have len: "length ?es = length values"
    using assms by (simp add: entries_of_def)
  have nth: "?es ! i = (values ! i, labels ! i, icons ! i, unique_ids ! i)"
    using assms by (simp add: entries_of_def)
  from len assms(4) have "drop i ?es = ?es ! i # drop (Suc i) ?es"
    by (simp add: Cons_nth_drop_Suc)
  with nth show ?thesis by simp
qed

lemma loop_as_dedup_from:
  "length labels = length values \<Longrightarrow> length icons = length values \<Longrightarrow>
   length unique_ids = length values \<Longrightarrow> i \<le> length values \<Longrightarrow>
     RemoveDuplicateSuggestions_loop values labels icons unique_ids i seen vc lc ic uc =
     (case suggestions_of (dedup_from seen (drop i (entries_of (values, labels, icons, unique_ids))))
      of (vs, ls, cs, us) \<Rightarrow> (vc @ vs, lc @ ls, ic @ cs, uc @ us))"
proof (induction "values" labels icons unique_ids i seen vc lc ic uc
       rule: RemoveDuplicateSuggestions_loop.induct)
  case (1 vals labels icons unique_ids i seen vc lc ic uc)
  let ?es = "entries_of (vals, labels, icons, unique_ids)"
  show ?case
  proof (cases "i < length vals")
    case False
    with "1.prems" have "drop i ?es = []"
      by (simp add: entries_of_def)
    with False show ?thesis
      by (simp add: suggestions_of_def)
  next
    case True
    note d = entries_of_drop [OF "1.prems"(1,2,3) True]
    show ?thesis
    proof (cases "(vals ! i, labels ! i) \<in> seen")
      case True
      with \<open>i < length vals\<close> "1.IH"(2) "1.prems" d show ?thesis
        by (simp add: entry_key_def)
    next
      case False
      with \<open>i < length vals\<close> "1.IH"(1) "1.prems" d show ?thesis
        by (simp add: entry_key_def suggestions_of_def)
    qed
  qed
qed

lemma entries_of_suggestions_of: "entries_of (suggestions_of es) = es"
  by (induction es) (auto simp: entries_of_def suggestions_of_def)

lemma RemoveDuplicateSuggestions_as_dedup:
  assumes "length labels = length values" "length icons = length values"
    "length unique_ids = length values"
  shows "RemoveDuplicateSuggestions (values, labels, icons, unique_ids) =
     Inr (suggestions_of (dedup_from {} (entries_of (values, labels, icons, unique_ids))))"
  using assms loop_as_dedup_from [OF assms, of 0 "{}" "[]" "[]" "[]" "[]"]
  by (simp add: RemoveDuplicateSuggestions_def split: prod.splits)

lemma RemoveDuplicateSuggestions_suggestions_of:
  "RemoveDuplicateSuggestions (suggestions_of es) = Inr (suggestions_of (dedup_from {} es))"
  using RemoveDuplicateSuggestions_as_dedup
    [of "map (fst \<circ> snd) es" "map fst es" "map (fst \<circ> snd \<circ> snd) es" "map (snd \<circ> snd \<circ> snd) es"]
    entries_of_suggestions_of [of es]
  by (simp add: suggestions_of_def)

text \<open>
  Claim C9.  For four sequences of equal length, \<open>RemoveDuplicateSuggestions\<close> returns
  a result \<open>r\<close> on which a second application returns \<open>r\<close> again; \<open>r\<close> keeps, in
  first-seen order, exactly the entries whose (value, label) pair did not occur earlier,
  and no (value, label) pair occurs twice in it.
\<close>

theorem RemoveDuplicateSuggestions_idempotent:
  assumes "length labels = length values" "length icons = length values"
    "length unique_ids = length values"
  shows "\<exists>r. RemoveDuplicateSuggestions (values, labels, icons, unique_ids) = Inr r
     \<and> RemoveDuplicateSuggestions r = Inr r
     \<and> entries_of r = collapse_duplicates (entries_of (values, labels, icons, unique_ids))
     \<and> distinct (map entry_key (entries_of r))"
proof -
  let ?es = "entries_of (values, labels, icons, unique_ids)"
  let ?d = "dedup_from {} ?es"
  have once: "RemoveDuplicateSuggestions (values, labels, icons, unique_ids) = Inr (suggestions_of ?d)"
    by (rule RemoveDuplicateSuggestions_as_dedup [OF assms])
  have keys: "distinct (map entry_key ?d)"
    using dedup_from_keys [of "{}" ?es] by simp
  then have "dedup_from {} ?d = ?d"
    by (simp add: dedup_from_fixed)
  then have twice: "RemoveDuplicateSuggestions (suggestions_of ?d) = Inr (suggestions_of ?d)"
    by (simp add: RemoveDuplicateSuggestions_suggestions_of)
  have spec: "?d = collapse_duplicates ?es"
    by (simp add: dedup_from_collapse)
  from once twice keys spec show ?thesis
    by (simp add: entries_of_suggestions_of)
qed

theorem RemoveDuplicateSuggestions_idempotent_witness:
  "RemoveDuplicateSuggestions ([''a'', ''b'', ''a'', ''a''], [''x'', ''y'', ''x'', ''z''],
       [''i1'', ''i2'', ''i3'', ''i4''], [1, 2, 3, 4])
     = Inr ([''a'', ''b'', ''a''], [''x'', ''y'', ''z''], [''i1'', ''i2'', ''i4''], [1, 2, 4])
   \<and> RemoveDuplicateSuggestions
       ([''a'', ''b'', ''a''], [''x'', ''y'', ''z''], [''i1'', ''i2'', ''i4''], [1, 2, 4])
     = Inr ([''a'', ''b'', ''a''], [''x'', ''y'', ''z''], [''i1'', ''i2'', ''i4''], [1, 2, 4])"
  using RemoveDuplicateSuggestions_idempotent
    [of "[''x'', ''y'', ''x'', ''z'']" "[''a'', ''b'', ''a'', ''a'']"
        "[''i1'', ''i2'', ''i3'', ''i4'']" "[1, 2, 3, 4]"]
  by (simp add: RemoveDuplicateSuggestions_def)

section \<open>Properties of FindSectionBounds\<close>

lemma loop_done:
  "\<not> i < length form \<Longrightarrow> FindSectionBounds_loop ext form field cc i st = st"
  by (subst FindSectionBounds_loop.simps) simp

lemma loop_unknown:
  "i < length form \<Longrightarrow> \<not> known_field ext form i \<Longrightarrow>
   FindSectionBounds_loop ext form field cc i st = FindSectionBounds_loop ext form field cc (Suc i) st"
  by (subst FindSectionBounds_loop.simps) (simp add: known_field_def del: FindSectionBounds_loop.simps)

lemma loop_break:
  "i < length form \<Longrightarrow> known_field ext form i \<Longrightarrow>
   already_saw ext form st i \<or> \<not> appropriate_field ext form cc i \<Longrightarrow>
   initiating_field_is_in_current_section st \<Longrightarrow>
   FindSectionBounds_loop ext form field cc i st = st\<lparr>section_end := i\<rparr>"
  by (subst FindSectionBounds_loop.simps)
     (auto simp: known_field_def already_saw_def appropriate_field_def Let_def
           simp del: FindSectionBounds_loop.simps)

lemma loop_new_section:
  "i < length form \<Longrightarrow> known_field ext form i \<Longrightarrow>
   already_saw ext form st i \<Longrightarrow> appropriate_field ext form cc i \<Longrightarrow>
   \<not> initiating_field_is_in_current_section st \<Longrightarrow>
   FindSectionBounds_loop ext form field cc i st =
     FindSectionBounds_loop ext form field cc (Suc i)
       (include_current_field (GetEquivalentFieldType ext (af_type (form ! i))) i field
          (st\<lparr>seen_types := {}, section_start := i\<rparr>))"
  by (subst FindSectionBounds_loop.simps)
     (auto simp: known_field_def already_saw_def appropriate_field_def Let_def
           simp del: FindSectionBounds_loop.simps)

lemma loop_skip:
  "i < length form \<Longrightarrow> known_field ext form i \<Longrightarrow>
   \<not> appropriate_field ext form cc i \<Longrightarrow>
   \<not> initiating_field_is_in_current_section st \<Longrightarrow>
   FindSectionBounds_loop ext form field cc i st =
     FindSectionBounds_loop ext form field cc (Suc i) (st\<lparr>seen_types := {}, section_start := Suc i\<rparr>)"
  by (subst FindSectionBounds_loop.simps)
     (auto simp: known_field_def already_saw_def appropriate_field_def Let_def
           simp del: FindSectionBounds_loop.simps)

lemma loop_include:
  "i < length form \<Longrightarrow> known_field ext form i \<Longrightarrow>
   \<not> already_saw ext form st i \<Longrightarrow> appropriate_field ext form cc i \<Longrightarrow>
   FindSectionBounds_loop ext form field cc i st =
     FindSectionBounds_loop ext form field cc (Suc i)
       (include_current_field (GetEquivalentFieldType ext (af_type (form ! i))) i field st)"
  by (subst FindSectionBounds_loop.simps)
     (auto simp: known_field_def already_saw_def appropriate_field_def Let_def
           simp del: FindSectionBounds_loop.simps)


lemma loop_cases:
  assumes "i < length form"
  obtains (unknown) "\<not> known_field ext form i"
  | (break) "known_field ext form i"
      "already_saw ext form st i \<or> \<not> appropriate_field ext form cc i"
      "initiating_field_is_in_current_section st"
  | (new_section) "known_field ext form i" "already_saw ext form st i"
      "appropriate_field ext form cc i" "\<not> initiating_field_is_in_current_section st"
  | (skip) "known_field ext form i" "\<not> appropriate_field ext form cc i"
      "\<not> initiating_field_is_in_current_section st"
  | (incl) "known_field ext form i" "\<not> already_saw ext form st i"
      "appropriate_field ext form cc i"
  by blast

lemma loop_exclusive:
  "i \<le> length form \<Longrightarrow> section_end st = length form \<Longrightarrow> section_start st \<le> i \<Longrightarrow>
   (\<forall>n. section_start st \<le> n \<and> n < i \<and> known_field ext form n \<longrightarrow> appropriate_field ext form cc n) \<Longrightarrow>
   section_end (FindSectionBounds_loop ext form field cc i st) \<le> length form \<and>
   (\<forall>n. section_start (FindSectionBounds_loop ext form field cc i st) \<le> n
        \<and> n < section_end (FindSectionBounds_loop ext form field cc i st)
        \<and> known_field ext form n
      \<longrightarrow> appropriate_field ext form cc n)"
proof (induction "length form - i" arbitrary: i st)
  case 0
  then have "FindSectionBounds_loop ext form field cc i st = st"
    by (simp add: loop_done)
  with 0 show ?case by auto
next
  case (Suc d)
  then have inrange: "i < length form" by simp
  have d: "d = length form - Suc i" using Suc.hyps(2) by simp
  have le: "Suc i \<le> length form" using inrange by simp
  note IH = Suc.hyps(1) [OF d le]
  from inrange show ?case
  proof (cases rule: loop_cases [where ext = ext and st = st and cc = cc])
    case unknown
    have "\<forall>n. section_start st \<le> n \<and> n < Suc i \<and> known_field ext form n
            \<longrightarrow> appropriate_field ext form cc n"
      using Suc.prems(4) unknown by (auto simp: less_Suc_eq)
    with IH [of st] Suc.prems(2,3) show ?thesis
      by (simp add: loop_unknown [OF inrange unknown])
  next
    case break
    with Suc.prems inrange show ?thesis
      by (simp add: loop_break [OF inrange break])
  next
    case new_section
    let ?st = "include_current_field (GetEquivalentFieldType ext (af_type (form ! i))) i field
          (st\<lparr>seen_types := {}, section_start := i\<rparr>)"
    have "\<forall>n. section_start ?st \<le> n \<and> n < Suc i \<and> known_field ext form n
            \<longrightarrow> appropriate_field ext form cc n"
      using new_section(3) by (auto simp: include_current_field_def less_Suc_eq)
    moreover have "section_end ?st = length form" "section_start ?st \<le> Suc i"
      using Suc.prems(2) by (simp_all add: include_current_field_def)
    ultimately show ?thesis
      using IH [of ?st] by (simp add: loop_new_section [OF inrange new_section])
  next
    case skip
    let ?st = "st\<lparr>seen_types := {}, section_start := Suc i\<rparr>"
    have "\<forall>n. section_start ?st \<le> n \<and> n < Suc i \<and> known_field ext form n
            \<longrightarrow> appropriate_field ext form cc n"
      by auto
    moreover have "section_end ?st = length form" "section_start ?st \<le> Suc i"
      using Suc.prems(2) by simp_all
    ultimately show ?thesis
      using IH [of ?st] by (simp add: loop_skip [OF inrange skip])
  next
    case incl
    let ?st = "include_current_field (GetEquivalentFieldType ext (af_type (form ! i))) i field st"
    have "\<forall>n. section_start ?st \<le> n \<and> n < Suc i \<and> known_field ext form n
            \<longrightarrow> appropriate_field ext form cc n"
      using Suc.prems(4) incl(3) by (auto simp: include_current_field_def less_Suc_eq)
    moreover have "section_end ?st = length form" "section_start ?st \<le> Suc i"
      using Suc.prems(2,3) by (simp_all add: include_current_field_def)
    ultimately show ?thesis
      using IH [of ?st] by (simp add: loop_include [OF inrange incl])
  qed
qed

lemma loop_after_initiating:
  "i \<le> length form \<Longrightarrow> section_end st = length form \<Longrightarrow> field < i \<Longrightarrow>
   initiating_field_is_in_current_section st \<Longrightarrow>
   section_start (FindSectionBounds_loop ext form field cc i st) = section_start st \<and>
   i \<le> section_end (FindSectionBounds_loop ext form field cc i st) \<and>
   initiating_field_is_in_current_section (FindSectionBounds_loop ext form field cc i st)"
proof (induction "length form - i" arbitrary: i st)
  case 0
  then show ?case by (simp add: loop_done)
next
  case (Suc d)
  then have inrange: "i < length form" by simp
  have d: "d = length form - Suc i" using Suc.hyps(2) by simp
  have le: "Suc i \<le> length form" using inrange by simp
  note IH = Suc.hyps(1) [OF d le]
  from inrange show ?case
  proof (cases rule: loop_cases [where ext = ext and st = st and cc = cc])
    case unknown
    with IH [of st] Suc.prems show ?thesis
      by (simp add: loop_unknown [OF inrange unknown])
  next
    case break
    with Suc.prems show ?thesis
      by (simp add: loop_break [OF inrange break])
  next
    case new_section
    with Suc.prems(4) show ?thesis by simp
  next
    case skip
    with Suc.prems(4) show ?thesis by simp
  next
    case incl
    let ?st = "include_current_field (GetEquivalentFieldType ext (af_type (form ! i))) i field st"
    have "section_end ?st = length form" "field < Suc i"
      "initiating_field_is_in_current_section ?st" "section_start ?st = section_start st"
      using Suc.prems by (simp_all add: include_current_field_def)
    with IH [of ?st] show ?thesis
      by (simp add: loop_include [OF inrange incl])
  qed
qed

lemma loop_before_initiating:
  "i \<le> field \<Longrightarrow> field < length form \<Longrightarrow> section_end st = length form \<Longrightarrow>
   section_start st \<le> i \<Longrightarrow> \<not> initiating_field_is_in_current_section st \<Longrightarrow>
   known_field ext form field \<Longrightarrow> appropriate_field ext form cc field \<Longrightarrow>
   section_start (FindSectionBounds_loop ext form field cc i st) \<le> field \<and>
   field < section_end (FindSectionBounds_loop ext form field cc i st) \<and>
   initiating_field_is_in_current_section (FindSectionBounds_loop ext form field cc i st)"
proof (induction "field - i" arbitrary: i st)
  case 0
  then have i: "i = field" by simp
  have inrange: "i < length form" using 0 i by simp
  have le: "Suc i \<le> length form" using inrange by simp
  from inrange show ?case
  proof (cases rule: loop_cases [where ext = ext and st = st and cc = cc])
    case unknown
    with 0 i show ?thesis by simp
  next
    case break
    with 0 show ?thesis by simp
  next
    case new_section
    let ?st = "include_current_field (GetEquivalentFieldType ext (af_type (form ! i))) i field
          (st\<lparr>seen_types := {}, section_start := i\<rparr>)"
    have "section_end ?st = length form" "field < Suc i"
      "initiating_field_is_in_current_section ?st" "section_start ?st = field"
      using 0 i by (simp_all add: include_current_field_def)
    with loop_after_initiating [OF le, of ?st field ext cc] show ?thesis
      by (simp add: loop_new_section [OF inrange new_section])
  next
    case skip
    with 0 i show ?thesis by simp
  next
    case incl
    let ?st = "include_current_field (GetEquivalentFieldType ext (af_type (form ! i))) i field st"
    have "section_end ?st = length form" "field < Suc i"
      "initiating_field_is_in_current_section ?st" "section_start ?st \<le> field"
      using 0 i by (simp_all add: include_current_field_def)
    with loop_after_initiating [OF le, of ?st field ext cc] show ?thesis
      by (simp add: loop_include [OF inrange incl])
  qed
next
  case (Suc d)
  then have lt: "i < field" and inrange: "i < length form" by simp_all
  have d: "d = field - Suc i" using Suc.hyps(2) by simp
  have le: "Suc i \<le> field" using lt by simp
  note IH = Suc.hyps(1) [OF d le Suc.prems(2)]
  from inrange show ?case
  proof (cases rule: loop_cases [where ext = ext and st = st and cc = cc])
    case unknown
    with IH [of st] Suc.prems show ?thesis
      by (simp add: loop_unknown [OF inrange unknown])
  next
    case break
    with Suc.prems show ?thesis by simp
  next
    case new_section
    let ?st = "include_current_field (GetEquivalentFieldType ext (af_type (form ! i))) i field
          (st\<lparr>seen_types := {}, section_start := i\<rparr>)"
    have "section_end ?st = length form" "section_start ?st \<le> Suc i"
      "\<not> initiating_field_is_in_current_section ?st"
      using Suc.prems lt by (simp_all add: include_current_field_def)
    with IH [of ?st] Suc.prems(6,7) show ?thesis
      by (simp add: loop_new_section [OF inrange new_section])
  next
    case skip
    let ?st = "st\<lparr>seen_types := {}, section_start := Suc i\<rparr>"
    have "section_end ?st = length form" "section_start ?st \<le> Suc i"
      "\<not> initiating_field_is_in_current_section ?st"
      using Suc.prems by simp_all
    with IH [of ?st] Suc.prems(6,7) show ?thesis
      by (simp add: loop_skip [OF inrange skip])
  next
    case incl
    let ?st = "include_current_field (GetEquivalentFieldType ext (af_type (form ! i))) i field st"
    have "section_end ?st = length form" "section_start ?st \<le> Suc i"
      "\<not> initiating_field_is_in_current_section ?st"
      using Suc.prems lt by (simp_all add: include_current_field_def)
    with IH [of ?st] Suc.prems(6,7) show ?thesis
      by (simp add: loop_include [OF inrange incl])
  qed
qed

lemmas sample_simps = checkout_form_def cached_form_def cached_field_def text_field_def
  sample_externals_def sample_group_def field_count_def include_current_field_def
  AutoFillField.defs FormField.defs

text \<open>
  Claim C8.  Whatever the form, the initiating field and the flag, every index in the
  range that the loop of \<open>FindSectionBounds\<close> leaves in \<open>section_start\<close> and
  \<open>section_end\<close> is an index of the form, and a field there whose equivalent type is
  not \<open>UNKNOWN_TYPE\<close> is in the credit card group exactly when credit card data is
  being filled.  Phone and fax fields are not exempt from this.
\<close>

theorem FindSectionBounds_exclusive:
  assumes "section_start (FindSectionBounds_run ext form field is_filling_credit_card) \<le> n"
    and "n < section_end (FindSectionBounds_run ext form field is_filling_credit_card)"
    and "GetEquivalentFieldType ext (af_type (fs_fields form ! n)) \<noteq> UNKNOWN_TYPE"
  shows "n < field_count form \<and>
     (type_group ext (GetEquivalentFieldType ext (af_type (fs_fields form ! n))) = CREDIT_CARD)
       = is_filling_credit_card"
proof -
  let ?st0 = "\<lparr>section_start = 0, section_end = field_count form, seen_types = {},
        initiating_field_is_in_current_section = False\<rparr>"
  have "section_end (FindSectionBounds_loop ext (fs_fields form) field is_filling_credit_card 0 ?st0)
          \<le> length (fs_fields form) \<and>
     (\<forall>n. section_start (FindSectionBounds_loop ext (fs_fields form) field is_filling_credit_card 0 ?st0) \<le> n
        \<and> n < section_end (FindSectionBounds_loop ext (fs_fields form) field is_filling_credit_card 0 ?st0)
        \<and> known_field ext (fs_fields form) n
      \<longrightarrow> appropriate_field ext (fs_fields form) is_filling_credit_card n)"
    by (rule loop_exclusive) (simp_all add: field_count_def)
  with assms show ?thesis
    by (auto simp: FindSectionBounds_run_def known_field_def appropriate_field_def field_count_def)
qed

theorem FindSectionBounds_exclusive_witness:
  "FindSectionBounds sample_externals checkout_form 2 True = Inr (2, 5)
   \<and> type_group sample_externals
        (GetEquivalentFieldType sample_externals (af_type (fs_fields checkout_form ! 3)))
      = CREDIT_CARD"
proof -
  have run: "FindSectionBounds_run sample_externals checkout_form 2 True =
      \<lparr>section_start = 2, section_end = 5,
       seen_types = {CREDIT_CARD_NUMBER, CREDIT_CARD_EXP_MONTH, CREDIT_CARD_EXP_4_DIGIT_YEAR},
       initiating_field_is_in_current_section = True\<rparr>"
    by (auto simp add: FindSectionBounds_run_def FindSectionBounds_loop.simps sample_simps)
  have known: "GetEquivalentFieldType sample_externals (af_type (fs_fields checkout_form ! 3))
      \<noteq> UNKNOWN_TYPE"
    by (simp add: sample_simps)
  from FindSectionBounds_exclusive [of sample_externals checkout_form 2 True 3] run known
  show ?thesis by (simp add: FindSectionBounds_def)
qed

text \<open>
  When the initiating field is a field of the form whose equivalent type is not
  \<open>UNKNOWN_TYPE\<close> and which is a credit card field exactly when credit card data is
  being filled, \<open>FindSectionBounds\<close> passes its closing \<open>DCHECK\<close> and returns a range
  that contains the index of the initiating field.
\<close>

lemma FindSectionBounds_contains_field:
  assumes "field < field_count form"
    and "GetEquivalentFieldType ext (af_type (fs_fields form ! field)) \<noteq> UNKNOWN_TYPE"
    and "(type_group ext (GetEquivalentFieldType ext (af_type (fs_fields form ! field))) = CREDIT_CARD)
           = is_filling_credit_card"
  shows "\<exists>s e. FindSectionBounds ext form field is_filling_credit_card = Inr (s, e)
           \<and> s \<le> field \<and> field < e"
proof -
  let ?st0 = "\<lparr>section_start = 0, section_end = field_count form, seen_types = {},
        initiating_field_is_in_current_section = False\<rparr>"
  have "section_start (FindSectionBounds_loop ext (fs_fields form) field is_filling_credit_card 0 ?st0) \<le> field \<and>
   field < section_end (FindSectionBounds_loop ext (fs_fields form) field is_filling_credit_card 0 ?st0) \<and>
   initiating_field_is_in_current_section
     (FindSectionBounds_loop ext (fs_fields form) field is_filling_credit_card 0 ?st0)"
    using assms
    by (intro loop_before_initiating)
       (simp_all add: field_count_def known_field_def appropriate_field_def)
  then show ?thesis
    by (simp add: FindSectionBounds_def FindSectionBounds_run_def Let_def)
qed

lemma FindSectionBounds_contains_field_instance:
  "FindSectionBounds sample_externals checkout_form 0 False = Inr (0, 2)"
  using FindSectionBounds_contains_field [of 0 checkout_form sample_externals False]
  by (auto simp add: FindSectionBounds_def FindSectionBounds_run_def FindSectionBounds_loop.simps sample_simps)

text \<open>
  Claim C2.  The code does not do what the claim, and the comment on the function, say
  for an initiating field of unknown type.  The cached form has a field of type
  \<open>UNKNOWN_TYPE\<close> at index 0 and two name fields after it; the initiating field is the
  field at index 0 and profile data is being filled.  The loop passes over the unknown
  field before it can mark it, starts a new section at the second name, and ends with the
  range from 2 to 3, which does not contain index 0; the closing \<open>DCHECK\<close> fails.
  \<open>OnFillAutoFillFormData\<close> reaches this call for a manager that has cached the form
  and is asked to fill from that field with the profile of identifier 1.
\<close>

theorem FindSectionBounds_unknown_initiating_field:
  "FindSectionBounds_run sample_externals
     (cached_form [cached_field ''note'' UNKNOWN_TYPE, cached_field ''first'' (OTHER_TYPE 0),
                   cached_field ''second'' (OTHER_TYPE 0)]) 0 False
     = \<lparr>section_start = 2, section_end = 3, seen_types = {OTHER_TYPE 0},
        initiating_field_is_in_current_section = False\<rparr>
   \<and> FindSectionBounds sample_externals
     (cached_form [cached_field ''note'' UNKNOWN_TYPE, cached_field ''first'' (OTHER_TYPE 0),
                   cached_field ''second'' (OTHER_TYPE 0)]) 0 False = Inl DCheckFailed
   \<and> FindCachedFormAndField sample_externals
       (sample_manager\<lparr>form_structures :=
          [cached_form [cached_field ''note'' UNKNOWN_TYPE, cached_field ''first'' (OTHER_TYPE 0),
                        cached_field ''second'' (OTHER_TYPE 0)]]\<rparr>)
       \<lparr>form_fields = [text_field ''note'' '''', text_field ''first'' '''',
                       text_field ''second'' '''']\<rparr>
       (text_field ''note'' '''')
     = Some (cached_form [cached_field ''note'' UNKNOWN_TYPE, cached_field ''first'' (OTHER_TYPE 0),
                          cached_field ''second'' (OTHER_TYPE 0)], 0)
   \<and> OnFillAutoFillFormData sample_externals
       (sample_manager\<lparr>form_structures :=
          [cached_form [cached_field ''note'' UNKNOWN_TYPE, cached_field ''first'' (OTHER_TYPE 0),
                        cached_field ''second'' (OTHER_TYPE 0)]]\<rparr>)
       \<lparr>form_fields = [text_field ''note'' '''', text_field ''first'' '''',
                       text_field ''second'' '''']\<rparr>
       (text_field ''note'' '''') 1
     = Inl DCheckFailed"
proof -
  let ?fs = "cached_form [cached_field ''note'' UNKNOWN_TYPE, cached_field ''first'' (OTHER_TYPE 0),
                   cached_field ''second'' (OTHER_TYPE 0)]"
  let ?m = "sample_manager\<lparr>form_structures := [?fs]\<rparr>"
  let ?form = "\<lparr>form_fields = [text_field ''note'' '''', text_field ''first'' '''',
                       text_field ''second'' '''']\<rparr>"
  let ?field = "text_field ''note'' ''''"
  have run: "FindSectionBounds_run sample_externals ?fs 0 False
     = \<lparr>section_start = 2, section_end = 3, seen_types = {OTHER_TYPE 0},
        initiating_field_is_in_current_section = False\<rparr>"
    by (auto simp add: FindSectionBounds_run_def FindSectionBounds_loop.simps sample_simps)
  have bounds: "FindSectionBounds sample_externals ?fs 0 False = Inl DCheckFailed"
    by (simp add: FindSectionBounds_def run)
  have host: "GetHost ?m"
    by (simp add: GetHost_def sample_manager_def)
  have find: "FindCachedFormAndField sample_externals ?m ?form ?field = Some (?fs, 0)"
    by (simp add: FindCachedFormAndField_def FindCachedForm_def sample_manager_def
        sample_simps FormField_eq_def)
  have records: "FindRecords sample_externals ?m 1 = Inr (Some phone_profile, None)"
    by (simp add: FindRecords_def UnpackGUIDs_def IDToGUID_def sample_manager_def
        sample_externals_def guid_A_def guid_B_def phone_profile_def)
  have bounds': "FindSectionBounds sample_externals ?fs 0 ((None :: CreditCard option) \<noteq> None)
      = Inl DCheckFailed"
    using bounds by simp
  have fill: "OnFillAutoFillFormData sample_externals ?m ?form ?field 1 = Inl DCheckFailed"
    by (simp only: OnFillAutoFillFormData_def host find records bounds bounds' simp_thms if_True
        if_False option.case prod.case sum.case option.distinct)
  from run bounds find fill show ?thesis by (intro conjI)
qed

section \<open>Properties of PackGUIDs and UnpackGUIDs\<close>




















section \<open>Properties of the forward search and the fill loop\<close>

lemma search_forward_stop:
  "\<not> (k < bound \<and> \<not> FormField_eq (cached ! k) f) \<Longrightarrow> search_forward cached bound f k = k"
  by (subst search_forward.simps) auto

lemma search_forward_step:
  "k < bound \<Longrightarrow> \<not> FormField_eq (cached ! k) f \<Longrightarrow>
   search_forward cached bound f k = search_forward cached bound f (Suc k)"
  by (subst search_forward.simps) simp

lemma search_forward_ge: "k \<le> search_forward cached bound f k"
proof (induction cached bound f k rule: search_forward.induct)
  case (1 cached bound f k)
  show ?case
  proof (cases "k < bound \<and> \<not> FormField_eq (cached ! k) f")
    case True
    with "1.IH" show ?thesis by (simp add: search_forward_step)
  next
    case False
    then show ?thesis by (simp add: search_forward_stop)
  qed
qed

lemma search_forward_found:
  "search_forward cached bound f k < bound \<Longrightarrow>
   FormField_eq (cached ! search_forward cached bound f k) f"
proof (induction cached bound f k rule: search_forward.induct)
  case (1 cached bound f k)
  show ?case
  proof (cases "k < bound \<and> \<not> FormField_eq (cached ! k) f")
    case True
    with "1.IH" "1.prems" show ?thesis by (simp add: search_forward_step)
  next
    case False
    with "1.prems" show ?thesis by (simp add: search_forward_stop)
  qed
qed

lemma search_forward_first:
  "k \<le> n \<Longrightarrow> n < search_forward cached bound f k \<Longrightarrow> \<not> FormField_eq (cached ! n) f"
proof (induction cached bound f k rule: search_forward.induct)
  case (1 cached bound f k)
  show ?case
  proof (cases "k < bound \<and> \<not> FormField_eq (cached ! k) f")
    case True
    show ?thesis
    proof (cases "n = k")
      case True
      with \<open>k < bound \<and> \<not> FormField_eq (cached ! k) f\<close> show ?thesis by simp
    next
      case False
      with "1.prems" have "Suc k \<le> n" by simp
      with "1.IH" True "1.prems" show ?thesis by (simp add: search_forward_step)
    qed
  next
    case False
    with "1.prems" show ?thesis by (simp add: search_forward_stop)
  qed
qed

lemma search_forward_hit:
  "k \<le> n \<Longrightarrow> n < bound \<Longrightarrow> FormField_eq (cached ! n) f \<Longrightarrow>
   search_forward cached bound f k \<le> n"
  using search_forward_first [of k n cached bound f] by (meson not_le_imp_less)

lemma search_forward_miss:
  "k \<le> bound \<Longrightarrow> (\<And>n. k \<le> n \<Longrightarrow> n < bound \<Longrightarrow> \<not> FormField_eq (cached ! n) f) \<Longrightarrow>
   search_forward cached bound f k = bound"
proof (induction cached bound f k rule: search_forward.induct)
  case (1 cached bound f k)
  show ?case
  proof (cases "k < bound")
    case True
    with "1.prems"(2) [of k] have ne: "\<not> FormField_eq (cached ! k) f" by simp
    have "search_forward cached bound f (Suc k) = bound"
      using True ne "1.prems" by (intro "1.IH") simp_all
    with True ne show ?thesis by (simp add: search_forward_step)
  next
    case False
    with "1.prems"(1) show ?thesis by (simp add: search_forward_stop)
  qed
qed


text \<open>Traces: the count of matches, and how a trace grows by one entry at the front.\<close>

lemma matches_before_0 [simp]: "matches_before t 0 = 0"
  by (simp add: matches_before_def)

lemma matches_before_Cons [simp]:
  "matches_before (e # t) (Suc n) = (if snd e = None then 0 else 1) + matches_before t n"
  by (simp add: matches_before_def)

lemma trace_from_Nil [simp]: "trace_from cached bound sec_end live i j []"
  by (simp add: trace_from_def)

lemma trace_from_Cons:
  assumes "i < sec_end" and "j < length live"
    and "r = search_outcome cached bound (live ! j) i"
    and "trace_from cached bound sec_end live (if r = None then i else Suc i) (Suc j) added"
  shows "trace_from cached bound sec_end live i j ((i, r) # added)"
  unfolding trace_from_def
proof (intro conjI allI impI)
  from assms(4) have "length added \<le> length live - Suc j"
    by (simp add: trace_from_def)
  with assms(2) show "length ((i, r) # added) \<le> length live - j"
    by simp
next
  fix n assume n: "n < length ((i, r) # added)"
  show "fst (((i, r) # added) ! n) = i + matches_before ((i, r) # added) n"
    using n assms(4) by (cases n) (auto simp: trace_from_def)
  show "fst (((i, r) # added) ! n) < sec_end"
    using n assms(1,4) by (cases n) (auto simp: trace_from_def)
  show "snd (((i, r) # added) ! n)
      = search_outcome cached bound (live ! (j + n)) (fst (((i, r) # added) ! n))"
    using n assms(3,4) by (cases n) (auto simp: trace_from_def)
qed

lemma trace_from_live:
  assumes "length live' = length live" and "\<And>n. Suc j \<le> n \<Longrightarrow> live' ! n = live ! n"
    and "trace_from cached bound sec_end live' i (Suc j) added"
  shows "trace_from cached bound sec_end live i (Suc j) added"
  unfolding trace_from_def
proof (intro conjI allI impI)
  from assms(1,3) show "length added \<le> length live - Suc j"
    by (simp add: trace_from_def)
next
  fix n assume n: "n < length added"
  from assms(3) n show "fst (added ! n) = i + matches_before added n"
    and "fst (added ! n) < sec_end"
    unfolding trace_from_def by blast+
  from assms(3) n
  have "snd (added ! n) = search_outcome cached bound (live' ! (Suc j + n)) (fst (added ! n))"
    unfolding trace_from_def by blast
  moreover have "live' ! (Suc j + n) = live ! (Suc j + n)"
    by (rule assms(2)) simp
  ultimately
  show "snd (added ! n) = search_outcome cached bound (live ! (Suc j + n)) (fst (added ! n))"
    by simp
qed

lemma greedy_trace_from:
  "greedy_trace cached bound sec_start sec_end live trace
     = trace_from cached bound sec_end live sec_start 0 trace"
  by (simp add: greedy_trace_def trace_from_def)

lemma search_outcome_miss:
  "bound \<le> search_forward cached bound f i \<Longrightarrow> search_outcome cached bound f i = None"
  by (simp add: search_outcome_def)

lemma search_outcome_hit:
  "search_forward cached bound f i < bound \<Longrightarrow>
   search_outcome cached bound f i = Some (search_forward cached bound f i)"
  by (simp add: search_outcome_def)

lemma search_outcome_Some:
  "search_outcome cached bound f i = Some k \<Longrightarrow>
   i \<le> k \<and> k < bound \<and> FormField_eq (cached ! k) f"
  using search_forward_ge [of i cached bound f] search_forward_found [of cached bound f i]
  by (auto simp: search_outcome_def Let_def split: if_splits)

text \<open>The three ways through the body of the fill loop.\<close>

lemma FillSection_loop_done:
  "\<not> (i < sec_end \<and> j < length result) \<Longrightarrow>
   FillSection_loop ext fs profile credit_card sec_end i j result trace = Inr (result, trace)"
  by (subst FillSection_loop.simps) auto

lemma FillSection_loop_miss:
  "i < sec_end \<Longrightarrow> j < length result \<Longrightarrow>
   sec_end \<le> search_forward (fs_fields fs) sec_end (result ! j) i \<Longrightarrow>
   FillSection_loop ext fs profile credit_card sec_end i j result trace =
     FillSection_loop ext fs profile credit_card sec_end i (Suc j) result (trace @ [(i, None)])"
  by (subst FillSection_loop.simps) simp

lemma FillSection_loop_match:
  "i < sec_end \<Longrightarrow> j < length result \<Longrightarrow>
   search_forward (fs_fields fs) sec_end (result ! j) i < sec_end \<Longrightarrow>
   FillSection_loop ext fs profile credit_card sec_end i j result trace =
     (let k = search_forward (fs_fields fs) sec_end (result ! j) i in
      case (if type_group ext (af_type (fs_fields fs ! k)) \<noteq> NO_GROUP
            then FillWithRecord ext profile credit_card (af_type (fs_fields fs ! k)) (result ! j)
            else Inr (result ! j)) of
        Inl e \<Rightarrow> Inl e
      | Inr filled \<Rightarrow>
          FillSection_loop ext fs profile credit_card sec_end (Suc i) (Suc j)
            (result[j := filled]) (trace @ [(i, Some k)]))"
  by (subst FillSection_loop.simps) (simp add: Let_def)

lemma FillSection_loop_trace:
  "FillSection_loop ext fs profile credit_card sec_end i j result trace = Inr (result', trace') \<Longrightarrow>
   \<exists>added. trace' = trace @ added
     \<and> trace_from (fs_fields fs) sec_end sec_end result i j added
     \<and> (length added < length result - j
          \<longrightarrow> sec_end \<le> i + matches_before added (length added))"
proof (induction ext fs profile credit_card sec_end i j result trace
       rule: FillSection_loop.induct)
  case (1 ext fs profile credit_card sec_end i j result trace)
  show ?case
  proof (cases "i < sec_end \<and> j < length result")
    case False
    with "1.prems" have "trace' = trace" by (simp add: FillSection_loop_done)
    with False show ?thesis by (intro exI [of _ "[]"]) auto
  next
    case True
    let ?k = "search_forward (fs_fields fs) sec_end (result ! j) i"
    show ?thesis
    proof (cases "sec_end \<le> ?k")
      case miss: True
      from miss True "1.prems"
      have "FillSection_loop ext fs profile credit_card sec_end i (Suc j) result
          (trace @ [(i, None)]) = Inr (result', trace')"
        by (simp add: FillSection_loop_miss)
      from "1.IH"(1) [OF True refl miss this]
      obtain added where t: "trace' = (trace @ [(i, None)]) @ added"
        and tf: "trace_from (fs_fields fs) sec_end sec_end result i (Suc j) added"
        and stop: "length added < length result - Suc j
          \<longrightarrow> sec_end \<le> i + matches_before added (length added)"
        by blast
      have "trace_from (fs_fields fs) sec_end sec_end result i j ((i, None) # added)"
        using True tf miss
        by (intro trace_from_Cons) (simp_all add: search_outcome_miss)
      with t stop show ?thesis
        by (intro exI [of _ "(i, None) # added"]) auto
    next
      case False
      then have hit: "?k < sec_end" by simp
      let ?fill = "if type_group ext (af_type (fs_fields fs ! ?k)) \<noteq> NO_GROUP
            then FillWithRecord ext profile credit_card (af_type (fs_fields fs ! ?k)) (result ! j)
            else Inr (result ! j)"
      from "1.prems" True hit obtain filled where filled: "?fill = Inr filled"
        and rest: "FillSection_loop ext fs profile credit_card sec_end (Suc i) (Suc j)
            (result[j := filled]) (trace @ [(i, Some ?k)]) = Inr (result', trace')"
        by (auto simp: FillSection_loop_match Let_def split: sum.splits)
      from "1.IH"(2) [OF True refl False filled rest]
      obtain added where t: "trace' = (trace @ [(i, Some ?k)]) @ added"
        and tf: "trace_from (fs_fields fs) sec_end sec_end (result[j := filled]) (Suc i) (Suc j) added"
        and stop: "length added < length (result[j := filled]) - Suc j
          \<longrightarrow> sec_end \<le> Suc i + matches_before added (length added)"
        by blast
      have "trace_from (fs_fields fs) sec_end sec_end result (Suc i) (Suc j) added"
        using tf by (rule trace_from_live [rotated 2]) simp_all
      then have "trace_from (fs_fields fs) sec_end sec_end result i j ((i, Some ?k) # added)"
        using True hit
        by (intro trace_from_Cons) (simp_all add: search_outcome_hit)
      with t stop show ?thesis
        by (intro exI [of _ "(i, Some ?k) # added"]) auto
    qed
  qed
qed

text \<open>The four ways through the body of the loop of \<open>SectionIsAutoFilled\<close>.\<close>

lemma SectionIsAutoFilled_loop_done:
  "\<not> (i < sec_end \<and> j < length (form_fields form)) \<Longrightarrow>
   SectionIsAutoFilled_loop fs form sec_end i j trace = (False, trace)"
  by (subst SectionIsAutoFilled_loop.simps) auto

lemma SectionIsAutoFilled_loop_miss:
  "i < sec_end \<Longrightarrow> j < length (form_fields form) \<Longrightarrow>
   field_count fs \<le> search_forward (fs_fields fs) (field_count fs) (form_fields form ! j) i \<Longrightarrow>
   SectionIsAutoFilled_loop fs form sec_end i j trace =
     SectionIsAutoFilled_loop fs form sec_end i (Suc j) (trace @ [(i, None)])"
  by (subst SectionIsAutoFilled_loop.simps) simp

lemma SectionIsAutoFilled_loop_filled:
  "i < sec_end \<Longrightarrow> j < length (form_fields form) \<Longrightarrow>
   search_forward (fs_fields fs) (field_count fs) (form_fields form ! j) i < field_count fs \<Longrightarrow>
   is_autofilled (form_fields form ! j) \<Longrightarrow>
   SectionIsAutoFilled_loop fs form sec_end i j trace =
     (True, trace @ [(i, Some (search_forward (fs_fields fs) (field_count fs)
                                 (form_fields form ! j) i))])"
  by (subst SectionIsAutoFilled_loop.simps) (simp add: Let_def)

lemma SectionIsAutoFilled_loop_next:
  "i < sec_end \<Longrightarrow> j < length (form_fields form) \<Longrightarrow>
   search_forward (fs_fields fs) (field_count fs) (form_fields form ! j) i < field_count fs \<Longrightarrow>
   \<not> is_autofilled (form_fields form ! j) \<Longrightarrow>
   SectionIsAutoFilled_loop fs form sec_end i j trace =
     SectionIsAutoFilled_loop fs form sec_end (Suc i) (Suc j)
       (trace @ [(i, Some (search_forward (fs_fields fs) (field_count fs)
                             (form_fields form ! j) i))])"
  by (subst SectionIsAutoFilled_loop.simps) (simp add: Let_def)

lemma SectionIsAutoFilled_loop_trace:
  "SectionIsAutoFilled_loop fs form sec_end i j trace = (b, trace') \<Longrightarrow>
   \<exists>added. trace' = trace @ added
     \<and> trace_from (fs_fields fs) (field_count fs) sec_end (form_fields form) i j added
     \<and> (b \<longrightarrow> added \<noteq> [] \<and> snd (last added) \<noteq> None
            \<and> is_autofilled (form_fields form ! (j + length added - 1)))
     \<and> (\<forall>n < length added.
           snd (added ! n) \<noteq> None \<and> is_autofilled (form_fields form ! (j + n))
           \<longrightarrow> b \<and> Suc n = length added)
     \<and> (\<not> b \<and> length added < length (form_fields form) - j
          \<longrightarrow> sec_end \<le> i + matches_before added (length added))"
proof (induction fs form sec_end i j trace rule: SectionIsAutoFilled_loop.induct)
  case (1 fs form sec_end i j trace)
  let ?live = "form_fields form"
  show ?case
  proof (cases "i < sec_end \<and> j < length ?live")
    case False
    with "1.prems" have "trace' = trace" "\<not> b"
      by (simp_all add: SectionIsAutoFilled_loop_done)
    with False show ?thesis by (intro exI [of _ "[]"]) auto
  next
    case True
    let ?k = "search_forward (fs_fields fs) (field_count fs) (?live ! j) i"
    show ?thesis
    proof (cases "field_count fs \<le> ?k")
      case miss: True
      from miss True "1.prems"
      have "SectionIsAutoFilled_loop fs form sec_end i (Suc j) (trace @ [(i, None)]) = (b, trace')"
        by (simp add: SectionIsAutoFilled_loop_miss)
      from "1.IH"(1) [OF True refl miss this]
      obtain added where t: "trace' = (trace @ [(i, None)]) @ added"
        and tf: "trace_from (fs_fields fs) (field_count fs) sec_end ?live i (Suc j) added"
        and last: "b \<longrightarrow> added \<noteq> [] \<and> snd (last added) \<noteq> None
            \<and> is_autofilled (?live ! (Suc j + length added - 1))"
        and first: "\<forall>n < length added.
           snd (added ! n) \<noteq> None \<and> is_autofilled (?live ! (Suc j + n))
           \<longrightarrow> b \<and> Suc n = length added"
        and stop: "\<not> b \<and> length added < length ?live - Suc j
          \<longrightarrow> sec_end \<le> i + matches_before added (length added)"
        by (elim exE conjE) (rule that; assumption)
      let ?added = "(i, None) # added"
      have c1: "trace' = trace @ ?added" using t by simp
      have c2: "trace_from (fs_fields fs) (field_count fs) sec_end ?live i j ?added"
        using True tf miss
        by (intro trace_from_Cons) (simp_all add: search_outcome_miss)
      have c3: "b \<longrightarrow> ?added \<noteq> [] \<and> snd (last ?added) \<noteq> None
            \<and> is_autofilled (?live ! (j + length ?added - 1))"
        using last by simp
      have c4: "\<forall>n < length ?added.
           snd (?added ! n) \<noteq> None \<and> is_autofilled (?live ! (j + n))
           \<longrightarrow> b \<and> Suc n = length ?added"
      proof (intro allI impI)
        fix n assume n: "n < length ?added"
          and a: "snd (?added ! n) \<noteq> None \<and> is_autofilled (?live ! (j + n))"
        show "b \<and> Suc n = length ?added"
        proof (cases n)
          case 0 with a show ?thesis by simp
        next
          case (Suc n')
          with n a have "n' < length added"
            "snd (added ! n') \<noteq> None \<and> is_autofilled (?live ! (Suc j + n'))" by simp_all
          with first have "b \<and> Suc n' = length added" by blast
          with Suc show ?thesis by simp
        qed
      qed
      have c5: "\<not> b \<and> length ?added < length ?live - j
          \<longrightarrow> sec_end \<le> i + matches_before ?added (length ?added)"
        using stop by auto
      from c1 c2 c3 c4 c5 show ?thesis by (intro exI [of _ ?added] conjI)
    next
      case False
      then have hit: "?k < field_count fs" by simp
      show ?thesis
      proof (cases "is_autofilled (?live ! j)")
        case filled: True
        let ?added = "[(i, Some ?k)]"
        from filled True hit "1.prems" have b: "b" and c1: "trace' = trace @ ?added"
          by (simp_all add: SectionIsAutoFilled_loop_filled)
        have c2: "trace_from (fs_fields fs) (field_count fs) sec_end ?live i j ?added"
          using True hit by (intro trace_from_Cons) (simp_all add: search_outcome_hit)
        have c3: "b \<longrightarrow> ?added \<noteq> [] \<and> snd (last ?added) \<noteq> None
            \<and> is_autofilled (?live ! (j + length ?added - 1))"
          using filled by simp
        have c4: "\<forall>n < length ?added.
           snd (?added ! n) \<noteq> None \<and> is_autofilled (?live ! (j + n))
           \<longrightarrow> b \<and> Suc n = length ?added"
          using b by simp
        have c5: "\<not> b \<and> length ?added < length ?live - j
          \<longrightarrow> sec_end \<le> i + matches_before ?added (length ?added)"
          using b by simp
        from c1 c2 c3 c4 c5 show ?thesis by (intro exI [of _ ?added] conjI)
      next
        case unfilled: False
        from unfilled True hit "1.prems"
        have "SectionIsAutoFilled_loop fs form sec_end (Suc i) (Suc j) (trace @ [(i, Some ?k)])
            = (b, trace')"
          by (simp add: SectionIsAutoFilled_loop_next)
        from "1.IH"(2) [OF True refl False unfilled this]
        obtain added where t: "trace' = (trace @ [(i, Some ?k)]) @ added"
          and tf: "trace_from (fs_fields fs) (field_count fs) sec_end ?live (Suc i) (Suc j) added"
          and last: "b \<longrightarrow> added \<noteq> [] \<and> snd (last added) \<noteq> None
              \<and> is_autofilled (?live ! (Suc j + length added - 1))"
          and first: "\<forall>n < length added.
             snd (added ! n) \<noteq> None \<and> is_autofilled (?live ! (Suc j + n))
             \<longrightarrow> b \<and> Suc n = length added"
          and stop: "\<not> b \<and> length added < length ?live - Suc j
            \<longrightarrow> sec_end \<le> Suc i + matches_before added (length added)"
          by (elim exE conjE) (rule that; assumption)
        let ?added = "(i, Some ?k) # added"
        have c1: "trace' = trace @ ?added" using t by simp
        have c2: "trace_from (fs_fields fs) (field_count fs) sec_end ?live i j ?added"
          using True tf hit
          by (intro trace_from_Cons) (simp_all add: search_outcome_hit)
        have c3: "b \<longrightarrow> ?added \<noteq> [] \<and> snd (last ?added) \<noteq> None
              \<and> is_autofilled (?live ! (j + length ?added - 1))"
          using last by simp
        have c4: "\<forall>n < length ?added.
             snd (?added ! n) \<noteq> None \<and> is_autofilled (?live ! (j + n))
             \<longrightarrow> b \<and> Suc n = length ?added"
        proof (intro allI impI)
          fix n assume n: "n < length ?added"
            and a: "snd (?added ! n) \<noteq> None \<and> is_autofilled (?live ! (j + n))"
          show "b \<and> Suc n = length ?added"
          proof (cases n)
            case 0 with a unfilled show ?thesis by simp
          next
            case (Suc n')
            with n a have "n' < length added"
              "snd (added ! n') \<noteq> None \<and> is_autofilled (?live ! (Suc j + n'))" by simp_all
            with first have "b \<and> Suc n' = length added" by blast
            with Suc show ?thesis by simp
          qed
        qed
        have c5: "\<not> b \<and> length ?added < length ?live - j
            \<longrightarrow> sec_end \<le> i + matches_before ?added (length ?added)"
          using stop by auto
        from c1 c2 c3 c4 c5 show ?thesis by (intro exI [of _ ?added] conjI)
      qed
    qed
  qed
qed

lemma greedy_trace_Some:
  assumes "greedy_trace cached bound sec_start sec_end live trace"
    and "j < length trace" and "snd (trace ! j) = Some k"
  shows "sec_start + matches_before trace j \<le> k \<and> k < bound \<and> FormField_eq (cached ! k) (live ! j)"
proof -
  from assms(1,2) have i: "fst (trace ! j) = sec_start + matches_before trace j"
    and s: "snd (trace ! j) = search_outcome cached bound (live ! j) (fst (trace ! j))"
    unfolding greedy_trace_def by blast+
  from s assms(3) have "search_outcome cached bound (live ! j) (fst (trace ! j)) = Some k"
    by simp
  from search_outcome_Some [OF this] i show ?thesis by simp
qed

lemmas fill_simps = FillSection_loop.simps search_forward.simps FormField_eq_def
  FillWithRecord_def FillFormField_def FillCreditCardFormField_def FillPhoneNumberField_def
  substr_def Let_def kPrefixOffset_def kPrefixLength_def kSuffixOffset_def kSuffixLength_def
  cached_form_def cached_field_def text_field_def sample_externals_def
  sample_group_def phone_profile_def sample_card_def AutoFillField.defs FormField.defs

lemmas section_simps = SectionIsAutoFilled_def SectionIsAutoFilled_loop.simps
  search_forward.simps FormField_eq_def field_count_def cached_form_def cached_field_def
  text_field_def AutoFillField.defs FormField.defs

lemma FillSection_loop_greedy:
  assumes run: "FillSection_loop ext form_structure profile credit_card sec_end sec_start 0 live []
        = Inr (result, trace)"
  shows "greedy_trace (fs_fields form_structure) sec_end sec_start sec_end live trace
      \<and> (\<forall>j < length trace. \<forall>k. snd (trace ! j) = Some k \<longrightarrow>
            sec_start + matches_before trace j \<le> k \<and> k < sec_end
            \<and> FormField_eq (fs_fields form_structure ! k) (live ! j))
      \<and> (length trace < length live
            \<longrightarrow> sec_end \<le> sec_start + matches_before trace (length trace))"
proof -
  from FillSection_loop_trace [OF run]
  have tf: "trace_from (fs_fields form_structure) sec_end sec_end live sec_start 0 trace"
    and stop: "length trace < length live
      \<longrightarrow> sec_end \<le> sec_start + matches_before trace (length trace)"
    by simp_all
  from tf have g: "greedy_trace (fs_fields form_structure) sec_end sec_start sec_end live trace"
    by (simp add: greedy_trace_from)
  from g have "\<forall>j < length trace. \<forall>k. snd (trace ! j) = Some k \<longrightarrow>
            sec_start + matches_before trace j \<le> k \<and> k < sec_end
            \<and> FormField_eq (fs_fields form_structure ! k) (live ! j)"
    by (intro allI impI) (rule greedy_trace_Some)
  with g stop show ?thesis by (intro conjI)
qed

lemma SectionIsAutoFilled_loop_greedy:
  assumes run: "SectionIsAutoFilled_loop form_structure form sec_end sec_start 0 [] = (b, trace)"
  shows "greedy_trace (fs_fields form_structure) (field_count form_structure) sec_start sec_end
        (form_fields form) trace
      \<and> (\<forall>j < length trace. \<forall>k. snd (trace ! j) = Some k \<longrightarrow>
            sec_start + matches_before trace j \<le> k \<and> k < field_count form_structure
            \<and> FormField_eq (fs_fields form_structure ! k) (form_fields form ! j))
      \<and> (\<forall>j < length trace.
            snd (trace ! j) \<noteq> None \<and> is_autofilled (form_fields form ! j)
            \<longrightarrow> b \<and> Suc j = length trace)
      \<and> (b \<longrightarrow> trace \<noteq> [] \<and> snd (last trace) \<noteq> None
            \<and> is_autofilled (form_fields form ! (length trace - 1)))
      \<and> (\<not> b \<and> length trace < length (form_fields form)
            \<longrightarrow> sec_end \<le> sec_start + matches_before trace (length trace))"
proof -
  from SectionIsAutoFilled_loop_trace [OF run]
  obtain added where t: "trace = [] @ added"
    and tf: "trace_from (fs_fields form_structure) (field_count form_structure) sec_end
        (form_fields form) sec_start 0 added"
    and last: "b \<longrightarrow> added \<noteq> [] \<and> snd (last added) \<noteq> None
            \<and> is_autofilled (form_fields form ! (0 + length added - 1))"
    and first: "\<forall>n < length added.
            snd (added ! n) \<noteq> None \<and> is_autofilled (form_fields form ! (0 + n))
            \<longrightarrow> b \<and> Suc n = length added"
    and stop: "\<not> b \<and> length added < length (form_fields form) - 0
            \<longrightarrow> sec_end \<le> sec_start + matches_before added (length added)"
    by (elim exE conjE) (rule that; assumption)
  from t have eq: "added = trace" by simp
  from tf have g: "greedy_trace (fs_fields form_structure) (field_count form_structure)
      sec_start sec_end (form_fields form) trace"
    by (simp add: greedy_trace_from eq)
  from g have some: "\<forall>j < length trace. \<forall>k. snd (trace ! j) = Some k \<longrightarrow>
            sec_start + matches_before trace j \<le> k \<and> k < field_count form_structure
            \<and> FormField_eq (fs_fields form_structure ! k) (form_fields form ! j)"
    by (intro allI impI) (rule greedy_trace_Some)
  from first have first': "\<forall>j < length trace.
            snd (trace ! j) \<noteq> None \<and> is_autofilled (form_fields form ! j)
            \<longrightarrow> b \<and> Suc j = length trace"
    by (simp add: eq)
  from last have last': "b \<longrightarrow> trace \<noteq> [] \<and> snd (last trace) \<noteq> None
            \<and> is_autofilled (form_fields form ! (length trace - 1))"
    by (simp add: eq)
  from stop have stop': "\<not> b \<and> length trace < length (form_fields form)
            \<longrightarrow> sec_end \<le> sec_start + matches_before trace (length trace)"
    by (simp add: eq)
  from g some first' last' stop' show ?thesis by (intro conjI)
qed




section \<open>Properties of the functions that fill one field\<close>

text \<open>
  Claim C4.  \<open>FillPhoneNumberField\<close> changes the value of the field and nothing else.
  For a stored number of 10 characters the value is its first 3 characters when
  \<open>max_length\<close> is 3, its last 7 characters when \<open>max_length\<close> is 7, and the whole
  number otherwise; a stored number of another length is always written whole.
\<close>

theorem FillPhoneNumberField_value:
  "FillPhoneNumberField profile type field =
     Inr (field\<lparr>ff_value :=
       (let number = AutoFillProfile_GetFieldText profile type in
        if length number = 10 \<and> max_length field = 3 then take 3 number
        else if length number = 10 \<and> max_length field = 7 then drop (length number - 7) number
        else number)\<rparr>)"
  by (simp add: FillPhoneNumberField_def substr_def Let_def
      kPrefixOffset_def kPrefixLength_def kSuffixOffset_def kSuffixLength_def)

theorem FillPhoneNumberField_value_witness:
  "FillPhoneNumberField phone_profile (OTHER_TYPE 2) ((text_field ''phone'' '''')\<lparr>max_length := 3\<rparr>)
     = Inr ((text_field ''phone'' ''555'')\<lparr>max_length := 3\<rparr>)
   \<and> FillPhoneNumberField phone_profile (OTHER_TYPE 2) ((text_field ''phone'' '''')\<lparr>max_length := 7\<rparr>)
     = Inr ((text_field ''phone'' ''1234567'')\<lparr>max_length := 7\<rparr>)
   \<and> FillPhoneNumberField phone_profile (OTHER_TYPE 2) ((text_field ''phone'' '''')\<lparr>max_length := 20\<rparr>)
     = Inr ((text_field ''phone'' ''5551234567'')\<lparr>max_length := 20\<rparr>)
   \<and> FillPhoneNumberField phone_profile (OTHER_TYPE 0) ((text_field ''phone'' '''')\<lparr>max_length := 3\<rparr>)
     = Inr ((text_field ''phone'' ''Ann'')\<lparr>max_length := 3\<rparr>)"
  using FillPhoneNumberField_value [of phone_profile "OTHER_TYPE 2" "(text_field ''phone'' '''')\<lparr>max_length := 3\<rparr>"]
    FillPhoneNumberField_value [of phone_profile "OTHER_TYPE 2" "(text_field ''phone'' '''')\<lparr>max_length := 7\<rparr>"]
    FillPhoneNumberField_value [of phone_profile "OTHER_TYPE 2" "(text_field ''phone'' '''')\<lparr>max_length := 20\<rparr>"]
    FillPhoneNumberField_value [of phone_profile "OTHER_TYPE 0" "(text_field ''phone'' '''')\<lparr>max_length := 3\<rparr>"]
  by (simp add: phone_profile_def text_field_def)

text \<open>
  Claim C7.  For a type of the credit card group and a field whose control type is
  \<open>month\<close>, \<open>FillCreditCardFormField\<close> sets the value to the 4-digit year, a hyphen
  and the month when both stored texts are non-empty, and returns the field as it was
  when either is empty.
\<close>

theorem FillCreditCardFormField_month:
  assumes "type_group ext type = CREDIT_CARD" and "form_control_type field = ''month''"
  shows "FillCreditCardFormField ext credit_card type field =
     Inr (if CreditCard_GetFieldText credit_card CREDIT_CARD_EXP_4_DIGIT_YEAR \<noteq> []
            \<and> CreditCard_GetFieldText credit_card CREDIT_CARD_EXP_MONTH \<noteq> []
          then field\<lparr>ff_value := CreditCard_GetFieldText credit_card CREDIT_CARD_EXP_4_DIGIT_YEAR
                   @ ''-'' @ CreditCard_GetFieldText credit_card CREDIT_CARD_EXP_MONTH\<rparr>
          else field)"
  using assms by (simp add: FillCreditCardFormField_def Let_def)

theorem FillCreditCardFormField_month_witness:
  "FillCreditCardFormField sample_externals sample_card CREDIT_CARD_EXP_MONTH
       ((text_field ''exp'' ''keep'')\<lparr>form_control_type := ''month''\<rparr>)
     = Inr ((text_field ''exp'' ''2012-04'')\<lparr>form_control_type := ''month''\<rparr>)
   \<and> FillCreditCardFormField sample_externals
       (sample_card\<lparr>CreditCard_GetFieldText := (\<lambda>t. if t = CREDIT_CARD_EXP_MONTH then ''04'' else '''')\<rparr>)
       CREDIT_CARD_EXP_MONTH ((text_field ''exp'' ''keep'')\<lparr>form_control_type := ''month''\<rparr>)
     = Inr ((text_field ''exp'' ''keep'')\<lparr>form_control_type := ''month''\<rparr>)"
  using FillCreditCardFormField_month [of sample_externals CREDIT_CARD_EXP_MONTH
      "(text_field ''exp'' ''keep'')\<lparr>form_control_type := ''month''\<rparr>" sample_card]
    FillCreditCardFormField_month [of sample_externals CREDIT_CARD_EXP_MONTH
      "(text_field ''exp'' ''keep'')\<lparr>form_control_type := ''month''\<rparr>"
      "sample_card\<lparr>CreditCard_GetFieldText := (\<lambda>t. if t = CREDIT_CARD_EXP_MONTH then ''04'' else '''')\<rparr>"]
  by (simp add: sample_externals_def sample_group_def sample_card_def text_field_def)

section \<open>Properties of SectionIsAutoFilled and of the two fill branches\<close>

lemma search_beyond_section:
  assumes k: "k < bound" "FormField_eq (cached ! k) f"
    and none: "\<forall>n < sec_end. n < bound \<longrightarrow> \<not> FormField_eq (cached ! n) f"
    and i: "i < sec_end"
  shows "sec_end \<le> search_forward cached bound f i \<and> search_forward cached bound f i < bound
     \<and> FormField_eq (cached ! search_forward cached bound f i) f"
proof -
  let ?r = "search_forward cached bound f i"
  from k none have "sec_end \<le> k" by (meson not_le_imp_less)
  with i have "i \<le> k" by simp
  from search_forward_hit [OF this k] k(1) have r: "?r < bound" by simp
  then have eq: "FormField_eq (cached ! ?r) f" by (rule search_forward_found)
  with none r have "sec_end \<le> ?r" by (meson not_le_imp_less)
  with r eq show ?thesis by simp
qed

lemma FillSection_loop_frame:
  "FillSection_loop ext fs profile credit_card sec_end i j result trace = Inr (result', trace') \<Longrightarrow>
   length result' = length result \<and>
   (\<forall>n < length result.
      n < j \<or> (\<forall>k < sec_end. \<not> FormField_eq (fs_fields fs ! k) (result ! n))
      \<longrightarrow> result' ! n = result ! n)"
proof (induction ext fs profile credit_card sec_end i j result trace
       rule: FillSection_loop.induct)
  case (1 ext fs profile credit_card sec_end i j result trace)
  show ?case
  proof (cases "i < sec_end \<and> j < length result")
    case False
    with "1.prems" show ?thesis by (simp add: FillSection_loop_done)
  next
    case True
    let ?k = "search_forward (fs_fields fs) sec_end (result ! j) i"
    show ?thesis
    proof (cases "sec_end \<le> ?k")
      case miss: True
      from miss True "1.prems"
      have "FillSection_loop ext fs profile credit_card sec_end i (Suc j) result (trace @ [(i, None)])
          = Inr (result', trace')"
        by (simp add: FillSection_loop_miss)
      from "1.IH"(1) [OF True refl miss this] have len: "length result' = length result"
        and frame: "\<And>n. n < length result \<Longrightarrow>
          n < Suc j \<or> (\<forall>k < sec_end. \<not> FormField_eq (fs_fields fs ! k) (result ! n))
          \<Longrightarrow> result' ! n = result ! n"
        by blast+
      show ?thesis
      proof (intro conjI allI impI)
        show "length result' = length result" by (rule len)
      next
        fix n assume "n < length result"
          and "n < j \<or> (\<forall>k < sec_end. \<not> FormField_eq (fs_fields fs ! k) (result ! n))"
        then show "result' ! n = result ! n"
          by (intro frame) auto
      qed
    next
      case False
      then have hit: "?k < sec_end" by simp
      let ?fill = "if type_group ext (af_type (fs_fields fs ! ?k)) \<noteq> NO_GROUP
            then FillWithRecord ext profile credit_card (af_type (fs_fields fs ! ?k)) (result ! j)
            else Inr (result ! j)"
      from "1.prems" True hit obtain filled where filled: "?fill = Inr filled"
        and rest: "FillSection_loop ext fs profile credit_card sec_end (Suc i) (Suc j)
            (result[j := filled]) (trace @ [(i, Some ?k)]) = Inr (result', trace')"
        by (auto simp: FillSection_loop_match Let_def split: sum.splits)
      from "1.IH"(2) [OF True refl False filled rest]
      have len: "length result' = length result"
        and frame: "\<And>n. n < length result \<Longrightarrow>
          n < Suc j \<or> (\<forall>k < sec_end. \<not> FormField_eq (fs_fields fs ! k) (result[j := filled] ! n))
          \<Longrightarrow> result' ! n = result[j := filled] ! n"
        by (simp, metis length_list_update)
      have eq_j: "FormField_eq (fs_fields fs ! ?k) (result ! j)"
        using hit by (rule search_forward_found)
      show ?thesis
      proof (intro conjI allI impI)
        show "length result' = length result" by (rule len)
      next
        fix n assume n: "n < length result"
          and c: "n < j \<or> (\<forall>k < sec_end. \<not> FormField_eq (fs_fields fs ! k) (result ! n))"
        from c hit eq_j have ne: "n \<noteq> j" by auto
        with c have "n < Suc j \<or> (\<forall>k < sec_end. \<not> FormField_eq (fs_fields fs ! k) (result[j := filled] ! n))"
          by auto
        from frame [OF n this] ne show "result' ! n = result ! n" by simp
      qed
    qed
  qed
qed

lemma FillInitiatingField_frame:
  "FillInitiatingField ext profile credit_card type field live = Inr result \<Longrightarrow>
   length result = length live \<and>
   (\<forall>n < length live.
      \<not> FormField_eq (live ! n) field \<or> (\<exists>n' < n. FormField_eq (live ! n') field)
      \<longrightarrow> result ! n = live ! n)"
proof (induction live arbitrary: result)
  case Nil
  then show ?case by simp
next
  case (Cons f rest)
  show ?case
  proof (cases "FormField_eq f field")
    case True
    with Cons.prems obtain f' where "result = f' # rest"
      by (auto split: sum.splits)
    with True show ?thesis by (auto simp: nth_Cons split: nat.splits)
  next
    case False
    with Cons.prems obtain rest' where r: "FillInitiatingField ext profile credit_card type field rest = Inr rest'"
      and res: "result = f # rest'"
      by (auto split: sum.splits)
    from Cons.IH [OF r] have len: "length rest' = length rest"
      and frame: "\<And>n. n < length rest \<Longrightarrow>
        \<not> FormField_eq (rest ! n) field \<or> (\<exists>n' < n. FormField_eq (rest ! n') field)
        \<Longrightarrow> rest' ! n = rest ! n"
      by simp_all
    show ?thesis
    proof (intro conjI allI impI)
      show "length result = length (f # rest)" using len res by simp
    next
      fix n assume n: "n < length (f # rest)"
        and c: "\<not> FormField_eq ((f # rest) ! n) field
                \<or> (\<exists>n' < n. FormField_eq ((f # rest) ! n') field)"
      show "result ! n = (f # rest) ! n"
      proof (cases n)
        case 0
        with res show ?thesis by simp
      next
        case (Suc n0)
        from c have "\<not> FormField_eq (rest ! n0) field \<or> (\<exists>n' < n0. FormField_eq (rest ! n') field)"
        proof
          assume "\<not> FormField_eq ((f # rest) ! n) field"
          with Suc show ?thesis by simp
        next
          assume "\<exists>n' < n. FormField_eq ((f # rest) ! n') field"
          then obtain n' where n': "n' < n" "FormField_eq ((f # rest) ! n') field" by blast
          with False have "n' \<noteq> 0" by (auto intro: ccontr)
          then obtain n1 where "n' = Suc n1" by (cases n') simp_all
          with n' Suc show ?thesis by auto
        qed
        with frame [of n0] n Suc res show ?thesis by simp
      qed
    qed
  qed
qed

lemma filter_take_mono:
  "a \<le> b \<Longrightarrow> length (filter P (take a xs)) \<le> length (filter P (take b xs))"
proof -
  assume "a \<le> b"
  then have "take b xs = take a xs @ take (b - a) (drop a xs)"
    by (metis le_add_diff_inverse take_add)
  then show ?thesis by simp
qed

lemma matches_before_le:
  assumes g: "greedy_trace (fs_fields fs) (field_count fs) sec_start sec_end live trace"
  shows "n \<le> length trace \<Longrightarrow>
    matches_before trace n \<le> length (filter (has_equal_cached fs) (take n live))"
proof (induction n)
  case 0
  show ?case by simp
next
  case (Suc n)
  then have n: "n < length trace" by simp
  with g have nl: "n < length live" by (simp add: greedy_trace_def)
  have step: "snd (trace ! n) \<noteq> None \<Longrightarrow> has_equal_cached fs (live ! n)"
  proof -
    assume "snd (trace ! n) \<noteq> None"
    then obtain k where "snd (trace ! n) = Some k" by blast
    from greedy_trace_Some [OF g n this] show ?thesis
      by (auto simp: has_equal_cached_def)
  qed
  from Suc n have "matches_before trace n
      \<le> length (filter (has_equal_cached fs) (take n live))" by simp
  with step n nl show ?case
    by (auto simp: matches_before_def take_Suc_conv_app_nth)
qed

text \<open>
  Claim C10, as amended.  The loop of \<open>SectionIsAutoFilled\<close> is run from
  \<open>i = section_start\<close>, \<open>j = 0\<close>; its trace has one entry for each live field that the
  loop examines.  Let the live field number \<open>p\<close> equal some cached field of the form but
  none below \<open>section_end\<close>.  Whenever the loop examines that field (\<open>p < length trace\<close>),
  however many live fields precede it, the cursor is then below \<open>section_end\<close>, the
  search, bounded by the field count, matches the field at an index at or beyond
  \<open>section_end\<close>, and if the field is autofilled the function returns true.  The loop
  examines the field, or has returned true before it, whenever fewer than
  \<open>section_end - section_start\<close> of the live fields before it equal a cached field.  If
  the function returns false without examining the field, the cursor had reached
  \<open>section_end\<close>; and once \<open>section_start\<close> plus the number of correspondences made
  for the live fields before it has reached \<open>section_end\<close>, the field is not examined
  at all.  The fill loop,
  whose search stops at \<open>section_end\<close>, never matches the field and leaves it unchanged.
\<close>

theorem SectionIsAutoFilled_searches_whole_form:
  assumes "SectionIsAutoFilled_loop form_structure form sec_end sec_start 0 [] = (b, trace)"
    and "p < length (form_fields form)"
    and "sec_end \<le> field_count form_structure"
    and "has_equal_cached form_structure (form_fields form ! p)"
    and "\<forall>n < sec_end. \<not> FormField_eq (fs_fields form_structure ! n) (form_fields form ! p)"
  shows "SectionIsAutoFilled form_structure form sec_start sec_end = b
     \<and> (p < length trace \<longrightarrow>
          fst (trace ! p) = sec_start + matches_before trace p \<and> fst (trace ! p) < sec_end
          \<and> (\<exists>k. snd (trace ! p) = Some k \<and> sec_end \<le> k \<and> k < field_count form_structure
                \<and> FormField_eq (fs_fields form_structure ! k) (form_fields form ! p))
          \<and> (is_autofilled (form_fields form ! p) \<longrightarrow> b))
     \<and> (sec_start + length (filter (has_equal_cached form_structure) (take p (form_fields form)))
          < sec_end
        \<longrightarrow> (b \<or> p < length trace) \<and> (is_autofilled (form_fields form ! p) \<longrightarrow> b))
     \<and> (\<not> b \<and> \<not> p < length trace
        \<longrightarrow> sec_end \<le> sec_start + matches_before trace (length trace))
     \<and> (sec_end \<le> sec_start + matches_before trace p \<longrightarrow> \<not> p < length trace)
     \<and> (\<forall>ext profile credit_card result fill_trace.
           FillSection_loop ext form_structure profile credit_card sec_end sec_start 0
             (form_fields form) [] = Inr (result, fill_trace)
           \<longrightarrow> result ! p = form_fields form ! p
             \<and> (p < length fill_trace \<longrightarrow> snd (fill_trace ! p) = None))"
proof -
  let ?cached = "fs_fields form_structure"
  let ?count = "field_count form_structure"
  let ?live = "form_fields form"
  note run = assms(1)
  from SectionIsAutoFilled_loop_greedy [OF run]
  have g: "greedy_trace ?cached ?count sec_start sec_end ?live trace"
    and first: "\<forall>j < length trace.
            snd (trace ! j) \<noteq> None \<and> is_autofilled (?live ! j) \<longrightarrow> b \<and> Suc j = length trace"
    and stop: "\<not> b \<and> length trace < length ?live
            \<longrightarrow> sec_end \<le> sec_start + matches_before trace (length trace)"
    by blast+
  from assms(4) obtain k where k: "k < ?count" "FormField_eq (?cached ! k) (?live ! p)"
    by (auto simp: has_equal_cached_def)
  have none: "\<forall>n < sec_end. n < ?count \<longrightarrow> \<not> FormField_eq (?cached ! n) (?live ! p)"
    using assms(5) by simp
  have c1: "SectionIsAutoFilled form_structure form sec_start sec_end = b"
    using run by (simp add: SectionIsAutoFilled_def)
  have reached: "fst (trace ! p) = sec_start + matches_before trace p \<and> fst (trace ! p) < sec_end
          \<and> (\<exists>k. snd (trace ! p) = Some k \<and> sec_end \<le> k \<and> k < ?count
                \<and> FormField_eq (?cached ! k) (?live ! p))
          \<and> (is_autofilled (?live ! p) \<longrightarrow> b)" if p: "p < length trace"
  proof -
    from g p have i: "fst (trace ! p) = sec_start + matches_before trace p"
      and lt: "fst (trace ! p) < sec_end"
      and s: "snd (trace ! p) = search_outcome ?cached ?count (?live ! p) (fst (trace ! p))"
      unfolding greedy_trace_def by blast+
    let ?r = "search_forward ?cached ?count (?live ! p) (fst (trace ! p))"
    from search_beyond_section [OF k none lt]
    have r: "sec_end \<le> ?r" "?r < ?count" "FormField_eq (?cached ! ?r) (?live ! p)"
      by simp_all
    from s r(2) have some: "snd (trace ! p) = Some ?r"
      by (simp add: search_outcome_hit)
    with r have ex: "\<exists>k. snd (trace ! p) = Some k \<and> sec_end \<le> k \<and> k < ?count
                \<and> FormField_eq (?cached ! k) (?live ! p)"
      by blast
    from first p some have "is_autofilled (?live ! p) \<longrightarrow> b" by simp
    with i lt ex show ?thesis by (intro conjI)
  qed
  have c4: "\<not> b \<and> \<not> p < length trace
        \<longrightarrow> sec_end \<le> sec_start + matches_before trace (length trace)"
    using stop assms(2) by simp
  have c3a: "b \<or> p < length trace"
    if few: "sec_start + length (filter (has_equal_cached form_structure) (take p ?live)) < sec_end"
  proof (rule ccontr)
    assume "\<not> (b \<or> p < length trace)"
    then have nb: "\<not> b" and le: "length trace \<le> p" by simp_all
    with c4 have "sec_end \<le> sec_start + matches_before trace (length trace)" by simp
    also have "matches_before trace (length trace)
        \<le> length (filter (has_equal_cached form_structure) (take (length trace) ?live))"
      by (rule matches_before_le [OF g]) simp
    also have "\<dots> \<le> length (filter (has_equal_cached form_structure) (take p ?live))"
      using le by (rule filter_take_mono)
    finally show False using few by simp
  qed
  have c3: "sec_start + length (filter (has_equal_cached form_structure) (take p ?live)) < sec_end
        \<longrightarrow> (b \<or> p < length trace) \<and> (is_autofilled (?live ! p) \<longrightarrow> b)"
    using c3a reached by blast
  have c5: "\<forall>ext profile credit_card result fill_trace.
           FillSection_loop ext form_structure profile credit_card sec_end sec_start 0
             ?live [] = Inr (result, fill_trace)
           \<longrightarrow> result ! p = ?live ! p
             \<and> (p < length fill_trace \<longrightarrow> snd (fill_trace ! p) = None)"
  proof (intro allI impI conjI)
    fix ext profile credit_card result fill_trace
    assume fill: "FillSection_loop ext form_structure profile credit_card sec_end sec_start 0
             ?live [] = Inr (result, fill_trace)"
    from FillSection_loop_frame [OF fill] assms(2,5)
    show "result ! p = ?live ! p" by blast
    assume p: "p < length fill_trace"
    show "snd (fill_trace ! p) = None"
    proof (rule ccontr)
      assume "snd (fill_trace ! p) \<noteq> None"
      then obtain k' where "snd (fill_trace ! p) = Some k'" by blast
      with FillSection_loop_greedy [OF fill] p
      have "k' < sec_end \<and> FormField_eq (?cached ! k') (?live ! p)" by blast
      with assms(5) show False by blast
    qed
  qed
  from reached have c2: "p < length trace \<longrightarrow>
          fst (trace ! p) = sec_start + matches_before trace p \<and> fst (trace ! p) < sec_end
          \<and> (\<exists>k. snd (trace ! p) = Some k \<and> sec_end \<le> k \<and> k < ?count
                \<and> FormField_eq (?cached ! k) (?live ! p))
          \<and> (is_autofilled (?live ! p) \<longrightarrow> b)"
    by (rule impI)
  have c4': "sec_end \<le> sec_start + matches_before trace p \<longrightarrow> \<not> p < length trace"
    using reached by fastforce
  from c1 c2 c3 c4 c4' c5 show ?thesis by (intro conjI)
qed

theorem SectionIsAutoFilled_searches_whole_form_witness:
  "SectionIsAutoFilled_loop
     (cached_form [cached_field ''name'' (OTHER_TYPE 0), cached_field ''city'' (OTHER_TYPE 1),
                   cached_field ''card'' CREDIT_CARD_NUMBER])
     \<lparr>form_fields = [text_field ''zip'' '''', text_field ''name'' ''Ann'',
                     text_field ''fax'' '''',
                     (text_field ''card'' ''4111'')\<lparr>is_autofilled := True\<rparr>]\<rparr> 2 0 0 []
     = (True, [(0, None), (0, Some 0), (1, None), (1, Some 2)])
   \<and> SectionIsAutoFilled
       (cached_form [cached_field ''name'' (OTHER_TYPE 0), cached_field ''city'' (OTHER_TYPE 1),
                     cached_field ''card'' CREDIT_CARD_NUMBER])
       \<lparr>form_fields = [text_field ''zip'' '''', text_field ''name'' ''Ann'',
                       text_field ''fax'' '''',
                       (text_field ''card'' ''4111'')\<lparr>is_autofilled := True\<rparr>]\<rparr> 0 2
   \<and> \<not> FormField_eq (cached_field ''name'' (OTHER_TYPE 0))
        ((text_field ''card'' ''4111'')\<lparr>is_autofilled := True\<rparr>)
   \<and> \<not> FormField_eq (cached_field ''city'' (OTHER_TYPE 1))
        ((text_field ''card'' ''4111'')\<lparr>is_autofilled := True\<rparr>)
   \<and> FormField_eq (cached_field ''card'' CREDIT_CARD_NUMBER)
        ((text_field ''card'' ''4111'')\<lparr>is_autofilled := True\<rparr>)"
proof -
  let ?fs = "cached_form [cached_field ''name'' (OTHER_TYPE 0), cached_field ''city'' (OTHER_TYPE 1),
                   cached_field ''card'' CREDIT_CARD_NUMBER]"
  let ?f = "(text_field ''card'' ''4111'')\<lparr>is_autofilled := True\<rparr>"
  let ?form = "\<lparr>form_fields = [text_field ''zip'' '''', text_field ''name'' ''Ann'',
                     text_field ''fax'' '''', ?f]\<rparr>"
  let ?trace = "[(0, None), (0, Some 0), (1, None), (1, Some 2)] :: search_trace"
  have run: "SectionIsAutoFilled_loop ?fs ?form 2 0 0 [] = (True, ?trace)"
    by (simp add: section_simps)
  have p: "3 < length (form_fields ?form)" by simp
  have le: "2 \<le> field_count ?fs" by (simp add: section_simps)
  have n0: "\<not> FormField_eq (cached_field ''name'' (OTHER_TYPE 0)) ?f"
    and n1: "\<not> FormField_eq (cached_field ''city'' (OTHER_TYPE 1)) ?f"
    and e2: "FormField_eq (cached_field ''card'' CREDIT_CARD_NUMBER) ?f"
    by (simp_all add: section_simps)
  have has: "has_equal_cached ?fs (form_fields ?form ! 3)"
    unfolding has_equal_cached_def
    by (intro exI [of _ 2]) (simp add: e2 field_count_def cached_form_def)
  have none: "\<forall>n < 2. \<not> FormField_eq (fs_fields ?fs ! n) (form_fields ?form ! 3)"
  proof (intro allI impI)
    fix n :: nat assume "n < 2"
    then have "n = 0 \<or> n = 1" by arith
    then show "\<not> FormField_eq (fs_fields ?fs ! n) (form_fields ?form ! 3)"
      using n0 n1 by (auto simp: cached_form_def)
  qed
  from SectionIsAutoFilled_searches_whole_form [OF run p le has none]
  have "SectionIsAutoFilled ?fs ?form 0 2 = True" by (rule conjunct1)
  with run n0 n1 e2 show ?thesis by simp
qed

text \<open>
  Claim C10 as stated fails.  The section is the name field alone; the live form has the
  name and then the card, autofilled, which equals the cached field at index 1 only.  The
  match of the name moves the cursor to \<open>section_end\<close>, the loop ends before the card,
  and the function returns false.
\<close>

theorem SectionIsAutoFilled_searches_whole_form_counterexample:
  "\<not> SectionIsAutoFilled
     (cached_form [cached_field ''name'' (OTHER_TYPE 0), cached_field ''card'' CREDIT_CARD_NUMBER])
     \<lparr>form_fields = [text_field ''name'' ''Ann'',
                     (text_field ''card'' ''4111'')\<lparr>is_autofilled := True\<rparr>]\<rparr> 0 1
   \<and> SectionIsAutoFilled_loop
     (cached_form [cached_field ''name'' (OTHER_TYPE 0), cached_field ''card'' CREDIT_CARD_NUMBER])
     \<lparr>form_fields = [text_field ''name'' ''Ann'',
                     (text_field ''card'' ''4111'')\<lparr>is_autofilled := True\<rparr>]\<rparr> 1 0 0 []
       = (False, [(0, Some 0)])
   \<and> FormField_eq (cached_field ''card'' CREDIT_CARD_NUMBER)
        ((text_field ''card'' ''4111'')\<lparr>is_autofilled := True\<rparr>)
   \<and> \<not> FormField_eq (cached_field ''name'' (OTHER_TYPE 0))
        ((text_field ''card'' ''4111'')\<lparr>is_autofilled := True\<rparr>)
   \<and> is_autofilled ((text_field ''card'' ''4111'')\<lparr>is_autofilled := True\<rparr>)"
  by (simp add: section_simps)

text \<open>
  Claim C6.  When the section that \<open>OnFillAutoFillFormData\<close> computes is reported
  filled by \<open>SectionIsAutoFilled\<close>, the form that is sent has as many fields as the
  incoming form, and every field other than the first one that equals the initiating
  field is the incoming field, unchanged; the manager is unchanged too.
\<close>

theorem OnFillAutoFillFormData_filled_section:
  assumes "FindCachedFormAndField ext m form field = Some (form_structure, autofill_field)"
    and "FindRecords ext m unique_id = Inr (profile, credit_card)"
    and "FindSectionBounds ext form_structure autofill_field (credit_card \<noteq> None)
           = Inr (sec_start, sec_end)"
    and "SectionIsAutoFilled form_structure form sec_start sec_end"
    and "OnFillAutoFillFormData ext m form field unique_id = Inr (Some result, m')"
  shows "length (form_fields result) = length (form_fields form)
     \<and> (\<forall>n < length (form_fields form).
           \<not> FormField_eq (form_fields form ! n) field
           \<or> (\<exists>n' < n. FormField_eq (form_fields form ! n') field)
           \<longrightarrow> form_fields result ! n = form_fields form ! n)
     \<and> m' = m"
proof -
  from assms obtain live where
    fill: "FillInitiatingField ext profile credit_card
             (af_type (fs_fields form_structure ! autofill_field)) field (form_fields form)
           = Inr live"
    and result: "result = form\<lparr>form_fields := live\<rparr>" and m': "m' = m"
    by (auto simp: OnFillAutoFillFormData_def split: if_splits sum.splits)
  from FillInitiatingField_frame [OF fill] result m' show ?thesis by simp
qed

theorem OnFillAutoFillFormData_filled_section_witness:
  "OnFillAutoFillFormData sample_externals sample_manager filled_form (text_field ''city'' ''Ber'') 1
     = Inr (Some \<lparr>form_fields =
              [(text_field ''name'' ''Bob'')\<lparr>is_autofilled := True\<rparr>,
               (text_field ''city'' ''Oslo'')\<lparr>is_autofilled := True\<rparr>,
               text_field ''card'' '''', text_field ''month'' '''', text_field ''year'' '''']\<rparr>,
            sample_manager)
   \<and> SectionIsAutoFilled checkout_form filled_form 0 2"
proof -
  let ?field = "text_field ''city'' ''Ber''"
  let ?result = "\<lparr>form_fields =
              [(text_field ''name'' ''Bob'')\<lparr>is_autofilled := True\<rparr>,
               (text_field ''city'' ''Oslo'')\<lparr>is_autofilled := True\<rparr>,
               text_field ''card'' '''', text_field ''month'' '''', text_field ''year'' '''']\<rparr>"
  have a: "FindCachedFormAndField sample_externals sample_manager filled_form ?field
      = Some (checkout_form, 1)"
    by (simp add: FindCachedFormAndField_def FindCachedForm_def sample_manager_def
        filled_form_def sample_simps FormField_eq_def)
  have b: "FindRecords sample_externals sample_manager 1 = Inr (Some phone_profile, None)"
    by (simp add: FindRecords_def UnpackGUIDs_def IDToGUID_def sample_manager_def
        sample_externals_def guid_A_def guid_B_def phone_profile_def)
  have c: "FindSectionBounds sample_externals checkout_form 1 ((None :: CreditCard option) \<noteq> None)
      = Inr (0, 2)"
    by (auto simp add: FindSectionBounds_def FindSectionBounds_run_def
        FindSectionBounds_loop.simps sample_simps)
  have d: "SectionIsAutoFilled checkout_form filled_form 0 2"
    by (simp add: section_simps checkout_form_def filled_form_def)
  have host: "GetHost sample_manager"
    by (simp add: GetHost_def sample_manager_def)
  have fill: "FillInitiatingField sample_externals (Some phone_profile) None (OTHER_TYPE 1) ?field
      (form_fields filled_form) = Inr (form_fields ?result)"
    by (simp add: filled_form_def fill_simps)
  have t: "af_type (fs_fields checkout_form ! 1) = OTHER_TYPE 1"
    by (simp add: sample_simps)
  have c': "FindSectionBounds sample_externals checkout_form 1 False = Inr (0, 2)"
    using c by simp
  have upd: "filled_form\<lparr>form_fields := form_fields ?result\<rparr> = ?result"
    by (simp add: filled_form_def)
  have e: "OnFillAutoFillFormData sample_externals sample_manager filled_form ?field 1
      = Inr (Some ?result, sample_manager)"
    by (simp only: OnFillAutoFillFormData_def host a b c c' d fill t upd simp_thms if_True
        if_False option.case prod.case sum.case option.distinct)
  from OnFillAutoFillFormData_filled_section [OF a b c d e]
  have "form_fields ?result ! 0 = form_fields filled_form ! 0"
    by (simp add: filled_form_def)
  with e d show ?thesis by simp
qed

section \<open>Properties of OnQueryFormFieldAutoFill\<close>

text \<open>
  Claim C5.  Let the query reach the assembly of suggestions and let the assembled
  vectors be non-empty and of one length.  When the form is not auto-fillable under
  \<open>IsAutoFillable(true)\<close>, or credit card suggestions were assembled for a form whose
  source URL is not HTTPS, the four vectors handed on are one entry each: the warning
  message, an empty label, an empty icon and the unique id -1.  The two message
  identifiers are taken to be non-zero, as \<open>if (warning)\<close> needs.
\<close>

theorem OnQueryFormFieldAutoFill_warning:
  assumes "GetHost m"
    and "FindCachedFormAndField ext m form field = Some (form_structure, autofill_field)"
    and "IsAutoFillable form_structure False"
    and "GetSuggestions ext last_id m form_structure field
           (af_type (fs_fields form_structure ! autofill_field))
         = Inr ((values, labels, icons, unique_ids), last_id', m')"
    and "values \<noteq> []"
    and "length labels = length values" and "length icons = length values"
    and "length unique_ids = length values"
    and "IDS_AUTOFILL_WARNING_FORM_DISABLED ext \<noteq> 0"
    and "IDS_AUTOFILL_WARNING_INSECURE_CONNECTION ext \<noteq> 0"
    and "\<not> IsAutoFillable form_structure True
         \<or> (type_group ext (af_type (fs_fields form_structure ! autofill_field)) = CREDIT_CARD
            \<and> \<not> FormIsHTTPS form_structure)"
  shows "OnQueryFormFieldAutoFill ext last_id m form field =
     Inr (([GetStringUTF16 ext
              (if \<not> IsAutoFillable form_structure True
               then IDS_AUTOFILL_WARNING_FORM_DISABLED ext
               else IDS_AUTOFILL_WARNING_INSECURE_CONNECTION ext)],
           [[]], [[]], [- 1]), last_id', m')"
proof -
  let ?cc = "type_group ext (af_type (fs_fields form_structure ! autofill_field)) = CREDIT_CARD"
  have "ReviewSuggestions ext form_structure autofill_field form ?cc
          (values, labels, icons, unique_ids) =
     Inr ([GetStringUTF16 ext
              (if \<not> IsAutoFillable form_structure True
               then IDS_AUTOFILL_WARNING_FORM_DISABLED ext
               else IDS_AUTOFILL_WARNING_INSECURE_CONNECTION ext)],
           [[]], [[]], [- 1])"
    using assms(5-11) by (auto simp: ReviewSuggestions_def Let_def)
  with assms(1-4) show ?thesis
    by (simp add: OnQueryFormFieldAutoFill_def Let_def)
qed


theorem OnQueryFormFieldAutoFill_warning_witness:
  "GetSuggestions sample_externals 3 insecure_manager insecure_form (text_field ''card'' '''')
       CREDIT_CARD_NUMBER
     = Inr (([''************1111''], [''*1111''], [''visaCC''], [131072]), 3, insecure_manager)
   \<and> OnQueryFormFieldAutoFill sample_externals 3 insecure_manager filled_form (text_field ''card'' '''')
     = Inr (([''insecure''], [[]], [[]], [- 1]), 3, insecure_manager)"
proof -
  let ?field = "text_field ''card'' ''''"
  have host: "GetHost insecure_manager"
    by (simp add: GetHost_def insecure_manager_def sample_manager_def)
  have find: "FindCachedFormAndField sample_externals insecure_manager filled_form ?field
      = Some (insecure_form, 2)"
    by (simp add: FindCachedFormAndField_def FindCachedForm_def insecure_manager_def
        insecure_form_def sample_manager_def filled_form_def sample_simps FormField_eq_def)
  have able: "IsAutoFillable insecure_form False" "IsAutoFillable insecure_form True"
    by (simp_all add: insecure_form_def sample_simps)
  have t: "af_type (fs_fields insecure_form ! 2) = CREDIT_CARD_NUMBER"
    by (simp add: insecure_form_def sample_simps)
  have pack: "PackGUIDs sample_externals 3 insecure_manager guid_B [] = Inr (131072, 3, insecure_manager)"
    by (simp add: PackGUIDs_def GUIDToID_def insecure_manager_def sample_manager_def
        sample_externals_def guid_A_def guid_B_def word_sle_eq)
  have sugg: "GetSuggestions sample_externals 3 insecure_manager insecure_form ?field
       CREDIT_CARD_NUMBER
     = Inr (([''************1111''], [''*1111''], [''visaCC''], [131072]), 3, insecure_manager)"
  proof -
    have cards: "credit_cards insecure_manager = [sample_card]"
      by (simp add: insecure_manager_def sample_manager_def)
    have "GetCreditCardSuggestions_loop sample_externals ?field CREDIT_CARD_NUMBER [sample_card]
        3 insecure_manager ([], [], [], [])
      = Inr (([''************1111''], [''*1111''], [''visaCC''], [131072]), 3, insecure_manager)"
      using pack
      by (simp add: sample_card_def sample_externals_def text_field_def kCreditCardPrefix_def)
    then show ?thesis
      by (simp add: GetSuggestions_def GetCreditCardSuggestions_def cards sample_externals_def
          sample_group_def)
  qed
  have sugg': "GetSuggestions sample_externals 3 insecure_manager insecure_form ?field
       (af_type (fs_fields insecure_form ! 2))
     = Inr (([''************1111''], [''*1111''], [''visaCC''], [131072]), 3, insecure_manager)"
    using sugg by (simp only: t)
  have ids: "IDS_AUTOFILL_WARNING_FORM_DISABLED sample_externals \<noteq> 0"
    "IDS_AUTOFILL_WARNING_INSECURE_CONNECTION sample_externals \<noteq> 0"
    by (simp_all add: sample_externals_def)
  have insecure: "\<not> IsAutoFillable insecure_form True
         \<or> (type_group sample_externals (af_type (fs_fields insecure_form ! 2)) = CREDIT_CARD
            \<and> \<not> FormIsHTTPS insecure_form)"
  proof -
    have "type_group sample_externals CREDIT_CARD_NUMBER = CREDIT_CARD"
      by (simp add: sample_externals_def sample_group_def)
    moreover have "\<not> FormIsHTTPS insecure_form"
      by (simp add: FormIsHTTPS_def insecure_form_def)
    ultimately show ?thesis by (simp add: t)
  qed
  have "OnQueryFormFieldAutoFill sample_externals 3 insecure_manager filled_form ?field =
     Inr (([GetStringUTF16 sample_externals
              (if \<not> IsAutoFillable insecure_form True
               then IDS_AUTOFILL_WARNING_FORM_DISABLED sample_externals
               else IDS_AUTOFILL_WARNING_INSECURE_CONNECTION sample_externals)],
           [[]], [[]], [- 1]), 3, insecure_manager)"
    by (rule OnQueryFormFieldAutoFill_warning [OF host find able(1) sugg' _ _ _ _ ids insecure])
       simp_all
  then have "OnQueryFormFieldAutoFill sample_externals 3 insecure_manager filled_form ?field
     = Inr (([''insecure''], [[]], [[]], [- 1]), 3, insecure_manager)"
    by (simp add: able sample_externals_def)
  with sugg show ?thesis by simp
qed

end
